theory Spec2Isabelle
  imports Main "HOL-Library.Monad_Syntax" "HOL-Library.Signed_Division"
begin

section \<open>The two-level tree: data model\<close>

text \<open>
  The program keeps two arenas, \<^verbatim>\<open>std::vector<Node> _nodes\<close> and
  \<^verbatim>\<open>std::vector<ParentNode> _parent_nodes\<close>, and links their records with
  raw pointers into the arenas.  A pointer is modelled by the index of the record it
  points to (\<^verbatim>\<open>get_node(city)\<close> is \<^verbatim>\<open>&_nodes[city]\<close>, so the index of
  a node is its city).  An arena is a function from indices to records, with the vector's
  size kept beside it.  The only code that stores a null pointer is the private
  \<^verbatim>\<open>delete_arc\<close>, which nothing calls; the null pointers of a freshly constructed
  record are written here as index 0 and are all overwritten by
  \<^verbatim>\<open>set_raw_tour\<close> before any read.

  The fields \<^verbatim>\<open>id\<close> and \<^verbatim>\<open>size\<close> are C++ \<^verbatim>\<open>int\<close>; they are
  modelled by unbounded integers (local IDs move by at most one segment length per
  operation, so the 32-bit range is out of reach of any realistic run).  Division and
  remainder on them are the truncating ones of C++ (\<open>sdiv\<close>, \<open>smod\<close>).

  The two scratch vectors \<^verbatim>\<open>_temp_nodes\<close> and \<^verbatim>\<open>_temp_parent_nodes\<close>
  are cleared before every use; they are local values of the operations here.
\<close>

record node =
  node_id :: int
  city :: int
  node_prev :: nat
  node_next :: nat
  parent :: nat

record parent_node =
  reverse :: bool
  seg_size :: int
  parent_id :: int
  parent_prev :: nat
  parent_next :: nat
  segment_begin_node :: nat
  segment_end_node :: nat

record two_level_tree =
  parent_nodes :: "nat \<Rightarrow> parent_node"
  nodes :: "nat \<Rightarrow> node"
  n_parents :: nat
  n_nodes :: nat
  n_cities :: nat
  origin_city :: nat
  nominal_segment_length :: nat

datatype Direction = forward | backward

text \<open>Reading a field through a pointer.\<close>

definition id_of :: "two_level_tree \<Rightarrow> nat \<Rightarrow> int" where
  "id_of t v = node_id (nodes t v)"

definition city_of :: "two_level_tree \<Rightarrow> nat \<Rightarrow> int" where
  "city_of t v = city (nodes t v)"

definition prev_of :: "two_level_tree \<Rightarrow> nat \<Rightarrow> nat" where
  "prev_of t v = node_prev (nodes t v)"

definition next_of :: "two_level_tree \<Rightarrow> nat \<Rightarrow> nat" where
  "next_of t v = node_next (nodes t v)"

definition parent_of :: "two_level_tree \<Rightarrow> nat \<Rightarrow> nat" where
  "parent_of t v = parent (nodes t v)"

definition rev_of :: "two_level_tree \<Rightarrow> nat \<Rightarrow> bool" where
  "rev_of t p = reverse (parent_nodes t p)"

definition size_of :: "two_level_tree \<Rightarrow> nat \<Rightarrow> int" where
  "size_of t p = seg_size (parent_nodes t p)"

definition pid_of :: "two_level_tree \<Rightarrow> nat \<Rightarrow> int" where
  "pid_of t p = parent_id (parent_nodes t p)"

definition pprev_of :: "two_level_tree \<Rightarrow> nat \<Rightarrow> nat" where
  "pprev_of t p = parent_prev (parent_nodes t p)"

definition pnext_of :: "two_level_tree \<Rightarrow> nat \<Rightarrow> nat" where
  "pnext_of t p = parent_next (parent_nodes t p)"

definition begin_of :: "two_level_tree \<Rightarrow> nat \<Rightarrow> nat" where
  "begin_of t p = segment_begin_node (parent_nodes t p)"

definition end_of :: "two_level_tree \<Rightarrow> nat \<Rightarrow> nat" where
  "end_of t p = segment_end_node (parent_nodes t p)"

text \<open>Writing a field through a pointer.\<close>

definition set_id :: "two_level_tree \<Rightarrow> nat \<Rightarrow> int \<Rightarrow> two_level_tree" where
  "set_id t v x = t\<lparr>nodes := (nodes t)(v := (nodes t v)\<lparr>node_id := x\<rparr>)\<rparr>"

definition set_city :: "two_level_tree \<Rightarrow> nat \<Rightarrow> int \<Rightarrow> two_level_tree" where
  "set_city t v x = t\<lparr>nodes := (nodes t)(v := (nodes t v)\<lparr>city := x\<rparr>)\<rparr>"

definition set_prev :: "two_level_tree \<Rightarrow> nat \<Rightarrow> nat \<Rightarrow> two_level_tree" where
  "set_prev t v x = t\<lparr>nodes := (nodes t)(v := (nodes t v)\<lparr>node_prev := x\<rparr>)\<rparr>"

definition set_next :: "two_level_tree \<Rightarrow> nat \<Rightarrow> nat \<Rightarrow> two_level_tree" where
  "set_next t v x = t\<lparr>nodes := (nodes t)(v := (nodes t v)\<lparr>node_next := x\<rparr>)\<rparr>"

definition set_parent :: "two_level_tree \<Rightarrow> nat \<Rightarrow> nat \<Rightarrow> two_level_tree" where
  "set_parent t v x = t\<lparr>nodes := (nodes t)(v := (nodes t v)\<lparr>parent := x\<rparr>)\<rparr>"

definition set_rev :: "two_level_tree \<Rightarrow> nat \<Rightarrow> bool \<Rightarrow> two_level_tree" where
  "set_rev t p x = t\<lparr>parent_nodes := (parent_nodes t)(p := (parent_nodes t p)\<lparr>reverse := x\<rparr>)\<rparr>"

definition set_size :: "two_level_tree \<Rightarrow> nat \<Rightarrow> int \<Rightarrow> two_level_tree" where
  "set_size t p x = t\<lparr>parent_nodes := (parent_nodes t)(p := (parent_nodes t p)\<lparr>seg_size := x\<rparr>)\<rparr>"

definition set_pid :: "two_level_tree \<Rightarrow> nat \<Rightarrow> int \<Rightarrow> two_level_tree" where
  "set_pid t p x = t\<lparr>parent_nodes := (parent_nodes t)(p := (parent_nodes t p)\<lparr>parent_id := x\<rparr>)\<rparr>"

definition set_pprev :: "two_level_tree \<Rightarrow> nat \<Rightarrow> nat \<Rightarrow> two_level_tree" where
  "set_pprev t p x = t\<lparr>parent_nodes := (parent_nodes t)(p := (parent_nodes t p)\<lparr>parent_prev := x\<rparr>)\<rparr>"

definition set_pnext :: "two_level_tree \<Rightarrow> nat \<Rightarrow> nat \<Rightarrow> two_level_tree" where
  "set_pnext t p x = t\<lparr>parent_nodes := (parent_nodes t)(p := (parent_nodes t p)\<lparr>parent_next := x\<rparr>)\<rparr>"

definition set_begin :: "two_level_tree \<Rightarrow> nat \<Rightarrow> nat \<Rightarrow> two_level_tree" where
  "set_begin t p x =
     t\<lparr>parent_nodes := (parent_nodes t)(p := (parent_nodes t p)\<lparr>segment_begin_node := x\<rparr>)\<rparr>"

definition set_end :: "two_level_tree \<Rightarrow> nat \<Rightarrow> nat \<Rightarrow> two_level_tree" where
  "set_end t p x =
     t\<lparr>parent_nodes := (parent_nodes t)(p := (parent_nodes t p)\<lparr>segment_end_node := x\<rparr>)\<rparr>"

text \<open>
  An operation that does not return normally (a failed \<^verbatim>\<open>assert\<close>, an
  out-of-range read of the input vector, a loop that never ends) has the value \<open>None\<close>.
\<close>

definition cassert :: "bool \<Rightarrow> unit option" where
  "cassert c = (if c then Some () else None)"

section \<open>node.h: the logical ends of a segment\<close>

definition forward_end_node :: "two_level_tree \<Rightarrow> nat \<Rightarrow> nat" where
  "forward_end_node t p = (if rev_of t p then begin_of t p else end_of t p)"

definition forward_begin_node :: "two_level_tree \<Rightarrow> nat \<Rightarrow> nat" where
  "forward_begin_node t p = (if rev_of t p then end_of t p else begin_of t p)"

definition backward_begin_node :: "two_level_tree \<Rightarrow> nat \<Rightarrow> nat" where
  "backward_begin_node t p = (if rev_of t p then begin_of t p else end_of t p)"

definition backward_end_node :: "two_level_tree \<Rightarrow> nat \<Rightarrow> nat" where
  "backward_end_node t p = (if rev_of t p then end_of t p else begin_of t p)"

section \<open>two\_level\_tree.h: construction and queries\<close>

text \<open>
  \<^verbatim>\<open>static_cast<int>(std::sqrt(n_cities))\<close>: the integer square root (the double
  square root of a 32-bit integer truncates to it).
\<close>

fun sqrt_down :: "nat \<Rightarrow> nat \<Rightarrow> nat" where
  "sqrt_down n 0 = 0"
| "sqrt_down n (Suc k) = (if Suc k * Suc k \<le> n then Suc k else sqrt_down n k)"

definition isqrt :: "nat \<Rightarrow> nat" where
  "isqrt n = sqrt_down n n"

definition default_node :: node where
  "default_node = \<lparr>node_id = 0, city = -1, node_prev = 0, node_next = 0, parent = 0\<rparr>"

definition default_parent_node :: parent_node where
  "default_parent_node = \<lparr>reverse = False, seg_size = 0, parent_id = 0, parent_prev = 0,
     parent_next = 0, segment_begin_node = 0, segment_end_node = 0\<rparr>"

definition TwoLevelTree :: "nat \<Rightarrow> nat \<Rightarrow> two_level_tree option" where
  "TwoLevelTree n origin = do {
     cassert (n > 0);
     cassert (isqrt n + 1 > 1);
     Some \<lparr>parent_nodes = (\<lambda>_. default_parent_node), nodes = (\<lambda>_. default_node),
           n_parents = isqrt n + 1, n_nodes = n + origin, n_cities = n, origin_city = origin,
           nominal_segment_length = n div (isqrt n + 1)\<rparr>
   }"

definition n_segments :: "two_level_tree \<Rightarrow> nat" where
  "n_segments t = n_parents t"

definition head_parent_node :: "two_level_tree \<Rightarrow> nat" where
  "head_parent_node t = 0"

definition tail_parent_node :: "two_level_tree \<Rightarrow> nat" where
  "tail_parent_node t = n_parents t - 1"

definition is_city_valid :: "two_level_tree \<Rightarrow> int \<Rightarrow> bool" where
  "is_city_valid t c \<longleftrightarrow> c \<ge> int (origin_city t) \<and> c < int (origin_city t) + int (n_cities t)"

definition get_node :: "two_level_tree \<Rightarrow> int \<Rightarrow> nat option" where
  "get_node t c = do {
     cassert (c \<ge> int (origin_city t) \<and> c < int (origin_city t) + int (n_cities t));
     Some (nat c)
   }"

definition get_next :: "two_level_tree \<Rightarrow> nat \<Rightarrow> nat" where
  "get_next t current = (if rev_of t (parent_of t current) then prev_of t current
                         else next_of t current)"

definition get_prev :: "two_level_tree \<Rightarrow> nat \<Rightarrow> nat" where
  "get_prev t current = (if rev_of t (parent_of t current) then next_of t current
                         else prev_of t current)"

section \<open>two\_level\_tree.cpp\<close>

subsection \<open>set\_raw\_tour\<close>

text \<open>\<^verbatim>\<open>order[i]\<close> on a \<^verbatim>\<open>std::vector<int>\<close>, with the index an \<^verbatim>\<open>int\<close>.\<close>

definition read_at :: "int list \<Rightarrow> int \<Rightarrow> int option" where
  "read_at order i = (if 0 \<le> i \<and> i < int (length order) then Some (order ! nat i) else None)"

fun fold_opt :: "('a \<Rightarrow> 's \<Rightarrow> 's option) \<Rightarrow> 'a list \<Rightarrow> 's \<Rightarrow> 's option" where
  "fold_opt f [] s = Some s"
| "fold_opt f (x # xs) s = (case f x s of None \<Rightarrow> None | Some s' \<Rightarrow> fold_opt f xs s')"

text \<open>The body of the inner loop, for position \<open>i\<close> of a segment that begins at \<open>i_begin\<close>.\<close>

definition set_raw_tour_node ::
  "int list \<Rightarrow> nat \<Rightarrow> nat \<Rightarrow> nat \<Rightarrow> two_level_tree \<Rightarrow> two_level_tree option" where
  "set_raw_tour_node order par i_begin i t = do {
     c \<leftarrow> read_at order (int i);
     cassert (is_city_valid t c);
     nd \<leftarrow> get_node t c;
     let t = set_city t nd c;
     let t = set_parent t nd par;
     pv \<leftarrow> (if i = 0 then get_node t (last order)
            else do { c' \<leftarrow> read_at order (int i - 1); get_node t c' });
     let t = set_prev t nd pv;
     nx \<leftarrow> (if i + 1 = n_cities t then get_node t (hd order)
            else do { c' \<leftarrow> read_at order (int i + 1); get_node t c' });
     let t = set_next t nd nx;
     Some (set_id t nd (int i - int i_begin))
   }"

text \<open>The body of the outer loop.\<close>

definition set_raw_tour_segment ::
  "int list \<Rightarrow> nat \<Rightarrow> two_level_tree \<Rightarrow> two_level_tree option" where
  "set_raw_tour_segment order current_segment t = do {
     let n = n_segments t;
     let segment_length = n_cities t div n;
     let par = current_segment;
     let t = set_pid t par (int current_segment);
     let t = set_pprev t par (if current_segment > 0 then current_segment - 1
                              else tail_parent_node t);
     let t = set_pnext t par (if current_segment + 1 < n then current_segment + 1
                              else head_parent_node t);
     let t = set_rev t par False;
     let i_begin = current_segment * segment_length;
     let i_end = (if current_segment = n - 1 then n_cities t else i_begin + segment_length);
     cb \<leftarrow> read_at order (int i_begin);
     let t = set_begin t par (nat cb);
     ce \<leftarrow> read_at order (int i_end - 1);
     let t = set_end t par (nat ce);
     let t = set_size t par (int i_end - int i_begin);
     fold_opt (set_raw_tour_node order par i_begin) [i_begin ..< i_end] t
   }"

definition set_raw_tour :: "two_level_tree \<Rightarrow> int list \<Rightarrow> two_level_tree option" where
  "set_raw_tour t order = do {
     cassert (length order = n_cities t);
     cassert (order \<noteq> []);
     fold_opt (set_raw_tour_segment order) [0 ..< n_segments t] t
   }"

subsection \<open>is\_between\<close>

definition can_reach_in_current_segment :: "two_level_tree \<Rightarrow> nat \<Rightarrow> nat \<Rightarrow> bool" where
  "can_reach_in_current_segment t u v =
     (if rev_of t (parent_of t u) then id_of t v < id_of t u else id_of t u < id_of t v)"

definition is_between :: "two_level_tree \<Rightarrow> nat \<Rightarrow> nat \<Rightarrow> nat \<Rightarrow> bool option" where
  "is_between t a b c = do {
     cassert (a \<noteq> b \<and> a \<noteq> c \<and> b \<noteq> c);
     let pa = parent_of t a;
     let pb = parent_of t b;
     let pc = parent_of t c;
     Some (
       if pa = pb \<and> pb = pc then
         (if rev_of t pa then
            (if id_of t c < id_of t a
             then id_of t b < id_of t a \<and> id_of t b > id_of t c
             else id_of t b < id_of t a \<or> id_of t b > id_of t c)
          else
            (if id_of t c > id_of t a
             then id_of t b > id_of t a \<and> id_of t b < id_of t c
             else id_of t b > id_of t a \<or> id_of t b < id_of t c))
       else if pa \<noteq> pb \<and> pa \<noteq> pc \<and> pb \<noteq> pc then
         (if pid_of t pc > pid_of t pa
          then pid_of t pb > pid_of t pa \<and> pid_of t pb < pid_of t pc
          else pid_of t pb > pid_of t pa \<or> pid_of t pb < pid_of t pc)
       else if pa = pb then can_reach_in_current_segment t a b
       else if pb = pc then
         (if rev_of t pb then id_of t b > id_of t c else id_of t b < id_of t c)
       else \<not> can_reach_in_current_segment t a c)
   }"

definition is_between_city :: "two_level_tree \<Rightarrow> int \<Rightarrow> int \<Rightarrow> int \<Rightarrow> bool option" where
  "is_between_city t a b c = do {
     na \<leftarrow> get_node t a; nb \<leftarrow> get_node t b; nc \<leftarrow> get_node t c;
     is_between t na nb nc
   }"

subsection \<open>Small private helpers\<close>

definition is_path_in_single_segment :: "two_level_tree \<Rightarrow> nat \<Rightarrow> nat \<Rightarrow> bool" where
  "is_path_in_single_segment t a b =
     (if parent_of t a = parent_of t b then
        (if rev_of t (parent_of t a) then id_of t a > id_of t b else id_of t a < id_of t b)
      else False)"

definition connect_arc_forward :: "two_level_tree \<Rightarrow> nat \<Rightarrow> nat \<Rightarrow> two_level_tree" where
  "connect_arc_forward t p q =
     (let t1 = (if rev_of t (parent_of t p) then set_prev t p q else set_next t p q)
      in if rev_of t1 (parent_of t1 q) then set_next t1 q p else set_prev t1 q p)"

partial_function (option) relabel_id ::
  "two_level_tree \<Rightarrow> nat \<Rightarrow> nat \<Rightarrow> two_level_tree option" where
  "relabel_id t a b =
     (if a \<noteq> b
      then relabel_id (set_id t (next_of t a) (id_of t a + 1)) (next_of t a) b
      else Some t)"

declare relabel_id.simps [code]

subsection \<open>split\_and\_merge\<close>

text \<open>The two collecting loops: \<open>sp\<close> is \<^verbatim>\<open>s->parent\<close>, \<open>tmp\<close> is \<^verbatim>\<open>_temp_nodes\<close>.\<close>

partial_function (option) collect_forward ::
  "two_level_tree \<Rightarrow> nat \<Rightarrow> nat \<Rightarrow> nat list \<Rightarrow> nat list option" where
  "collect_forward t sp p tmp =
     (if parent_of t p = sp then collect_forward t sp (get_next t p) (tmp @ [p])
      else Some tmp)"

declare collect_forward.simps [code]

partial_function (option) collect_backward ::
  "two_level_tree \<Rightarrow> nat \<Rightarrow> nat \<Rightarrow> nat list \<Rightarrow> nat list option" where
  "collect_backward t sp p tmp =
     (if parent_of t p = sp then collect_backward t sp (get_prev t p) (tmp @ [p])
      else Some tmp)"

declare collect_backward.simps [code]

text \<open>
  The two merging loops pop \<^verbatim>\<open>_temp_nodes\<close> from its back: the list argument is the
  stack with its top first.  They return the tree and the last value of \<open>q\<close>.
\<close>

fun merge_forward ::
  "two_level_tree \<Rightarrow> nat \<Rightarrow> int \<Rightarrow> nat \<Rightarrow> nat list \<Rightarrow> two_level_tree \<times> nat" where
  "merge_forward t neighbor_parent delta_id q [] = (t, q)"
| "merge_forward t neighbor_parent delta_id q (p # stack) =
     (let t = set_parent t p neighbor_parent;
          t = connect_arc_forward t p q;
          t = set_id t p (id_of t q + delta_id)
      in merge_forward t neighbor_parent delta_id p stack)"

fun merge_backward ::
  "two_level_tree \<Rightarrow> nat \<Rightarrow> int \<Rightarrow> nat \<Rightarrow> nat list \<Rightarrow> two_level_tree \<times> nat" where
  "merge_backward t neighbor_parent delta_id q [] = (t, q)"
| "merge_backward t neighbor_parent delta_id q (p # stack) =
     (let t = set_parent t p neighbor_parent;
          t = connect_arc_forward t q p;
          t = set_id t p (id_of t q + delta_id)
      in merge_backward t neighbor_parent delta_id p stack)"

definition split_and_merge ::
  "two_level_tree \<Rightarrow> nat \<Rightarrow> bool \<Rightarrow> Direction \<Rightarrow> two_level_tree option" where
  "split_and_merge t s include_self direction = do {
     let par = parent_of t s;
     let neighbor_parent = (if direction = forward then pnext_of t par else pprev_of t par);
     let tmp0 = (if include_self then [s] else []);
     tmp \<leftarrow> (if direction = forward then collect_forward t (parent_of t s) (get_next t s) tmp0
             else collect_backward t (parent_of t s) (get_prev t s) tmp0);
     let boundary = (if direction = forward then (if include_self then get_prev t s else s)
                     else (if include_self then get_next t s else s));
     if tmp = [] then Some t
     else do {
       let t = set_size t neighbor_parent (size_of t neighbor_parent + int (length tmp));
       let t = set_size t par (size_of t par - int (length tmp));
       cassert (size_of t par > 0);
       if direction = forward then do {
         let q = (if rev_of t neighbor_parent then end_of t neighbor_parent
                  else begin_of t neighbor_parent);
         let delta_id = (if rev_of t neighbor_parent then 1 else -1);
         let (t, q) = merge_forward t neighbor_parent delta_id q (rev tmp);
         let t = (if rev_of t neighbor_parent then set_end t neighbor_parent q
                  else set_begin t neighbor_parent q);
         let t = connect_arc_forward t boundary q;
         Some (if rev_of t par then set_begin t par boundary else set_end t par boundary)
       }
       else do {
         let q = (if rev_of t neighbor_parent then begin_of t neighbor_parent
                  else end_of t neighbor_parent);
         let delta_id = (if rev_of t neighbor_parent then -1 else 1);
         let (t, q) = merge_backward t neighbor_parent delta_id q (rev tmp);
         let t = (if rev_of t neighbor_parent then set_begin t neighbor_parent q
                  else set_end t neighbor_parent q);
         let t = connect_arc_forward t q boundary;
         Some (if rev_of t par then set_end t par boundary else set_begin t par boundary)
       }
     }
   }"

subsection \<open>Reversing inside one segment\<close>

definition reverse_complete_segment ::
  "two_level_tree \<Rightarrow> nat \<Rightarrow> nat \<Rightarrow> two_level_tree option" where
  "reverse_complete_segment t a b = do {
     cassert (parent_of t a = parent_of t b);
     let par = parent_of t a;
     cassert ((rev_of t par \<and> a = end_of t par \<and> b = begin_of t par)
            \<or> (\<not> rev_of t par \<and> b = end_of t par \<and> a = begin_of t par));
     let prev_a = forward_end_node t (pprev_of t (parent_of t a));
     let next_b = forward_begin_node t (pnext_of t (parent_of t b));
     let t = set_rev t par (\<not> rev_of t par);
     let t = (if rev_of t (parent_of t prev_a) then set_prev t prev_a b else set_next t prev_a b);
     let t = (if rev_of t par then set_prev t a next_b else set_next t a next_b);
     let t = (if rev_of t (parent_of t next_b) then set_next t next_b a else set_prev t next_b a);
     Some (if rev_of t par then set_next t b prev_a else set_prev t b prev_a)
   }"

partial_function (option) collect_path ::
  "two_level_tree \<Rightarrow> nat \<Rightarrow> nat \<Rightarrow> nat list \<Rightarrow> nat list option" where
  "collect_path t b p tmp =
     (if p \<noteq> b then collect_path t b (get_next t p) (tmp @ [p]) else Some tmp)"

declare collect_path.simps [code]

fun reconnect_path :: "two_level_tree \<Rightarrow> nat \<Rightarrow> nat list \<Rightarrow> two_level_tree" where
  "reconnect_path t p [] = t"
| "reconnect_path t p (q # stack) = reconnect_path (connect_arc_forward t p q) q stack"

definition reverse_partial_segment ::
  "two_level_tree \<Rightarrow> nat \<Rightarrow> nat \<Rightarrow> two_level_tree option" where
  "reverse_partial_segment t a b = do {
     cassert (parent_of t a = parent_of t b);
     let par = parent_of t a;
     let prev_a = get_prev t a;
     let next_b = get_next t b;
     let partial_segment_length = \<bar>id_of t a - id_of t b\<bar> + 1;
     tmp \<leftarrow> collect_path t b (get_next t a) [next_b, a];
     let tmp = tmp @ [b];
     let t = reconnect_path t prev_a (rev tmp);
     let t = (if a = begin_of t par then set_begin t par b
              else if a = end_of t par then set_end t par b
              else if b = begin_of t par then set_begin t par a
              else if b = end_of t par then set_end t par a
              else t);
     if rev_of t par then
       relabel_id
         (set_id t a (if a = begin_of t par then id_of t (next_of t b) - partial_segment_length
                      else id_of t (prev_of t a) + 1)) a b
     else
       relabel_id
         (set_id t b (if b = begin_of t par then id_of t (next_of t a) - partial_segment_length
                      else id_of t (prev_of t b) + 1)) b a
   }"

definition reverse_segment :: "two_level_tree \<Rightarrow> nat \<Rightarrow> nat \<Rightarrow> two_level_tree option" where
  "reverse_segment t a b = do {
     cassert (parent_of t a = parent_of t b);
     let par = parent_of t a;
     if (a = begin_of t par \<and> b = end_of t par) \<or> (b = begin_of t par \<and> a = end_of t par)
     then reverse_complete_segment t a b
     else do {
       let path_length = \<bar>id_of t a - id_of t b\<bar> + 1;
       if path_length \<le> int (nominal_segment_length t * 3 div 4)
       then reverse_partial_segment t a b
       else do {
         t \<leftarrow> split_and_merge t a False backward;
         t \<leftarrow> split_and_merge t b False forward;
         reverse_complete_segment t a b
       }
     }
   }"

subsection \<open>reverse\<close>

definition split_and_merge_a :: "two_level_tree \<Rightarrow> nat \<Rightarrow> two_level_tree option" where
  "split_and_merge_a t a =
     (if a = forward_begin_node t (parent_of t a) then Some t
      else
        let a_forward_end = forward_end_node t (parent_of t a);
            a_forward_half_length = \<bar>id_of t a_forward_end - id_of t a\<bar> + 1
        in if a_forward_half_length \<le> size_of t (parent_of t a) sdiv 2
           then split_and_merge t a True forward
           else split_and_merge t a False backward)"

definition split_and_merge_b :: "two_level_tree \<Rightarrow> nat \<Rightarrow> nat \<Rightarrow> two_level_tree option" where
  "split_and_merge_b t a b =
     (if b = backward_begin_node t (parent_of t b) then Some t
      else if pnext_of t (parent_of t b) = parent_of t a
      then split_and_merge t b True backward
      else
        let b_backward_end = backward_end_node t (parent_of t b);
            b_backward_half_length = \<bar>id_of t b_backward_end - id_of t b\<bar> + 1
        in if b_backward_half_length \<le> size_of t (parent_of t b) sdiv 2
           then split_and_merge t b True backward
           else split_and_merge t b False forward)"

text \<open>Loop (a): toggle every segment from \<open>p\<close> up to \<open>s2\<close>, pushing it on \<^verbatim>\<open>_temp_parent_nodes\<close>.\<close>

partial_function (option) toggle_segments ::
  "two_level_tree \<Rightarrow> nat \<Rightarrow> nat \<Rightarrow> nat list \<Rightarrow> (two_level_tree \<times> nat list) option" where
  "toggle_segments t s2 p tmp =
     (if p \<noteq> s2
      then toggle_segments (set_rev t p (\<not> rev_of t p)) s2 (pnext_of t p) (tmp @ [p])
      else Some (t, tmp))"

declare toggle_segments.simps [code]

text \<open>Loop (b): pop the parents and chain them after \<open>p\<close>; returns the tree and the last \<open>p\<close>.\<close>

fun relink_segments :: "two_level_tree \<Rightarrow> nat \<Rightarrow> nat list \<Rightarrow> two_level_tree \<times> nat" where
  "relink_segments t p [] = (t, p)"
| "relink_segments t p (q # stack) =
     (let t = set_pnext t p q;
          t = set_pprev t q p;
          t = set_pid t q ((pid_of t p + 1) smod int (n_parents t));
          p_last = forward_end_node t p;
          q_first = forward_begin_node t q;
          t = connect_arc_forward t p_last q_first
      in relink_segments t q stack)"

definition reverse_tour :: "two_level_tree \<Rightarrow> nat \<Rightarrow> nat \<Rightarrow> two_level_tree option" where
  "reverse_tour t a b =
     (if a = b \<or> get_next t b = a then Some t
      else if is_path_in_single_segment t a b then reverse_segment t a b
      else do {
        t \<leftarrow> split_and_merge_a t a;
        if is_path_in_single_segment t a b then reverse_segment t a b
        else do {
          t \<leftarrow> split_and_merge_b t a b;
          if is_path_in_single_segment t a b then reverse_segment t a b
          else do {
            cassert ((\<not> rev_of t (parent_of t a) \<and> a = begin_of t (parent_of t a))
                   \<or> (rev_of t (parent_of t a) \<and> a = end_of t (parent_of t a)));
            cassert ((\<not> rev_of t (parent_of t b) \<and> b = end_of t (parent_of t b))
                   \<or> (rev_of t (parent_of t b) \<and> b = begin_of t (parent_of t b)));
            let s1 = pprev_of t (parent_of t a);
            let s2 = pnext_of t (parent_of t b);
            (t, tmp) \<leftarrow> toggle_segments t s2 (parent_of t a) [s2];
            let (t, p) = relink_segments t s1 (rev tmp);
            cassert ((pid_of t p + 1) smod int (n_parents t) = pid_of t (pnext_of t p));
            Some t
          }
        }
      })"

subsection \<open>Raw tour\<close>

fun walk_tour :: "two_level_tree \<Rightarrow> Direction \<Rightarrow> nat \<Rightarrow> nat \<Rightarrow> int list" where
  "walk_tour t direction nd 0 = []"
| "walk_tour t direction nd (Suc k) =
     city_of t nd # walk_tour t direction (if direction = forward then get_next t nd
                                            else get_prev t nd) k"

definition get_raw_tour :: "two_level_tree \<Rightarrow> int \<Rightarrow> Direction \<Rightarrow> int list option" where
  "get_raw_tour t start_city direction = do {
     let start_city = (if start_city < 0 then int (origin_city t) else start_city);
     cassert (start_city \<ge> int (origin_city t) \<and> start_city < int (n_nodes t));
     nd \<leftarrow> get_node t start_city;
     Some (walk_tour t direction nd (n_cities t))
   }"

subsection \<open>flip\<close>

definition count_n_segments :: "two_level_tree \<Rightarrow> nat \<Rightarrow> nat \<Rightarrow> int" where
  "count_n_segments t a b =
     (let n = int (n_segments t); apid = pid_of t (parent_of t a); bpid = pid_of t (parent_of t b)
      in if apid = bpid then
           (let ap = parent_of t a
            in if (\<not> rev_of t ap \<and> id_of t a < id_of t b) \<or> (rev_of t ap \<and> id_of t a > id_of t b)
               then 1 else n)
         else if bpid > apid then bpid - apid + 1
         else bpid + n - apid + 1)"

definition is_approximately_shorter ::
  "two_level_tree \<Rightarrow> nat \<Rightarrow> nat \<Rightarrow> nat \<Rightarrow> nat \<Rightarrow> bool" where
  "is_approximately_shorter t a b c d =
     (let n_segments_ab = count_n_segments t a b; n_segments_cd = count_n_segments t c d
      in if n_segments_ab \<noteq> n_segments_cd then n_segments_ab < n_segments_cd
         else
           let excluded_length_a = \<bar>id_of t a - id_of t (forward_begin_node t (parent_of t a))\<bar>;
               excluded_length_b = \<bar>id_of t b - id_of t (forward_end_node t (parent_of t b))\<bar>;
               excluded_length_c = \<bar>id_of t c - id_of t (forward_begin_node t (parent_of t c))\<bar>;
               excluded_length_d = \<bar>id_of t d - id_of t (forward_end_node t (parent_of t d))\<bar>
           in excluded_length_a + excluded_length_b > excluded_length_c + excluded_length_d)"

definition has_edge :: "two_level_tree \<Rightarrow> nat \<Rightarrow> nat \<Rightarrow> bool" where
  "has_edge t a b \<longleftrightarrow> get_next t a = b \<or> get_prev t a = b"

definition flip :: "two_level_tree \<Rightarrow> nat \<Rightarrow> nat \<Rightarrow> nat \<Rightarrow> nat \<Rightarrow> two_level_tree option" where
  "flip t a b c d = do {
     let is_forward = (get_next t a = b);
     cassert ((get_next t c = d) = is_forward);
     cassert (\<not> (a = c \<and> b = d));
     if b = c \<or> d = a then Some t
     else if is_approximately_shorter t b c d a
     then (if is_forward then reverse_tour t b c else reverse_tour t c b)
     else (if is_forward then reverse_tour t d a else reverse_tour t a d)
   }"

definition flip_city :: "two_level_tree \<Rightarrow> int \<Rightarrow> int \<Rightarrow> int \<Rightarrow> int \<Rightarrow> two_level_tree option" where
  "flip_city t a b c d = do {
     na \<leftarrow> get_node t a; nb \<leftarrow> get_node t b; nc \<leftarrow> get_node t c; nd \<leftarrow> get_node t d;
     flip t na nb nc nd
   }"

subsection \<open>double\_bridge\_move\<close>

text \<open>The lambda \<^verbatim>\<open>sam\<close> followed by the three assertions of the loop body.\<close>

definition sam :: "two_level_tree \<Rightarrow> nat \<Rightarrow> two_level_tree option" where
  "sam t p = do {
     t \<leftarrow> (if parent_of t p = parent_of t (get_next t p) then split_and_merge t p False forward
           else Some t);
     cassert (p = begin_of t (parent_of t p) \<or> p = end_of t (parent_of t p));
     let q = get_next t p;
     cassert (q = begin_of t (parent_of t q) \<or> q = end_of t (parent_of t q));
     cassert (pnext_of t (parent_of t p) = parent_of t q);
     Some t
   }"

definition connect_forward :: "two_level_tree \<Rightarrow> nat \<Rightarrow> nat \<Rightarrow> two_level_tree" where
  "connect_forward t p q =
     (let t = connect_arc_forward t p q;
          t = set_pnext t (parent_of t p) (parent_of t q)
      in set_pprev t (parent_of t q) (parent_of t p))"

text \<open>The do-while that renumbers the parents from the head.\<close>

partial_function (option) renumber_parents ::
  "two_level_tree \<Rightarrow> nat \<Rightarrow> int \<Rightarrow> two_level_tree option" where
  "renumber_parents t p i =
     (let t' = set_pid t p i
      in if pnext_of t' p \<noteq> head_parent_node t' then renumber_parents t' (pnext_of t' p) (i + 1)
         else Some t')"

declare renumber_parents.simps [code]

definition double_bridge_move ::
  "two_level_tree \<Rightarrow> nat \<Rightarrow> nat \<Rightarrow> nat \<Rightarrow> nat \<Rightarrow> two_level_tree option" where
  "double_bridge_move t a b c d = do {
     r1 \<leftarrow> is_between t a b c; cassert r1;
     r2 \<leftarrow> is_between t b c d; cassert r2;
     r3 \<leftarrow> is_between t c d a; cassert r3;
     r4 \<leftarrow> is_between t d a b; cassert r4;
     cassert (parent_of t a \<noteq> parent_of t b);
     cassert (parent_of t a \<noteq> parent_of t c);
     cassert (parent_of t a \<noteq> parent_of t d);
     cassert (parent_of t b \<noteq> parent_of t c);
     cassert (parent_of t b \<noteq> parent_of t d);
     cassert (parent_of t c \<noteq> parent_of t d);
     let an = get_next t a;
     let bn = get_next t b;
     let cn = get_next t c;
     let dn = get_next t d;
     t \<leftarrow> sam t a;
     t \<leftarrow> sam t b;
     t \<leftarrow> sam t c;
     t \<leftarrow> sam t d;
     let t = connect_forward t a cn;
     let t = connect_forward t d bn;
     let t = connect_forward t c an;
     let t = connect_forward t b dn;
     renumber_parents t (head_parent_node t) 0
   }"

definition double_bridge_move_city ::
  "two_level_tree \<Rightarrow> int \<Rightarrow> int \<Rightarrow> int \<Rightarrow> int \<Rightarrow> two_level_tree option" where
  "double_bridge_move_city t a b c d = do {
     na \<leftarrow> get_node t a; nb \<leftarrow> get_node t b; nc \<leftarrow> get_node t c; nd \<leftarrow> get_node t d;
     double_bridge_move t na nb nc nd
   }"

section \<open>Reading after writing\<close>

text \<open>Each write changes one field of one record; every other read is unaffected.\<close>

lemma read_written [simp]:
  "id_of (set_id t v x1) = (id_of t)(v := x1)"
  "city_of (set_city t v x2) = (city_of t)(v := x2)"
  "prev_of (set_prev t v x3) = (prev_of t)(v := x3)"
  "next_of (set_next t v x4) = (next_of t)(v := x4)"
  "parent_of (set_parent t v x5) = (parent_of t)(v := x5)"
  "rev_of (set_rev t v x6) = (rev_of t)(v := x6)"
  "size_of (set_size t v x7) = (size_of t)(v := x7)"
  "pid_of (set_pid t v x8) = (pid_of t)(v := x8)"
  "pprev_of (set_pprev t v x9) = (pprev_of t)(v := x9)"
  "pnext_of (set_pnext t v x10) = (pnext_of t)(v := x10)"
  "begin_of (set_begin t v x11) = (begin_of t)(v := x11)"
  "end_of (set_end t v x12) = (end_of t)(v := x12)"
  by (auto simp: fun_eq_iff id_of_def city_of_def prev_of_def next_of_def parent_of_def rev_of_def size_of_def pid_of_def pprev_of_def pnext_of_def begin_of_def end_of_def set_id_def set_city_def set_prev_def set_next_def set_parent_def set_rev_def set_size_def set_pid_def set_pprev_def set_pnext_def set_begin_def set_end_def)

lemma read_other_id [simp]:
  "city_of (set_id t v x) = city_of t"
  "prev_of (set_id t v x) = prev_of t"
  "next_of (set_id t v x) = next_of t"
  "parent_of (set_id t v x) = parent_of t"
  "rev_of (set_id t v x) = rev_of t"
  "size_of (set_id t v x) = size_of t"
  "pid_of (set_id t v x) = pid_of t"
  "pprev_of (set_id t v x) = pprev_of t"
  "pnext_of (set_id t v x) = pnext_of t"
  "begin_of (set_id t v x) = begin_of t"
  "end_of (set_id t v x) = end_of t"
  "n_parents (set_id t v x) = n_parents t"
  "n_nodes (set_id t v x) = n_nodes t"
  "n_cities (set_id t v x) = n_cities t"
  "origin_city (set_id t v x) = origin_city t"
  "nominal_segment_length (set_id t v x) = nominal_segment_length t"
  by (auto simp: fun_eq_iff id_of_def city_of_def prev_of_def next_of_def parent_of_def rev_of_def size_of_def pid_of_def pprev_of_def pnext_of_def begin_of_def end_of_def set_id_def)

lemma read_other_city [simp]:
  "id_of (set_city t v x) = id_of t"
  "prev_of (set_city t v x) = prev_of t"
  "next_of (set_city t v x) = next_of t"
  "parent_of (set_city t v x) = parent_of t"
  "rev_of (set_city t v x) = rev_of t"
  "size_of (set_city t v x) = size_of t"
  "pid_of (set_city t v x) = pid_of t"
  "pprev_of (set_city t v x) = pprev_of t"
  "pnext_of (set_city t v x) = pnext_of t"
  "begin_of (set_city t v x) = begin_of t"
  "end_of (set_city t v x) = end_of t"
  "n_parents (set_city t v x) = n_parents t"
  "n_nodes (set_city t v x) = n_nodes t"
  "n_cities (set_city t v x) = n_cities t"
  "origin_city (set_city t v x) = origin_city t"
  "nominal_segment_length (set_city t v x) = nominal_segment_length t"
  by (auto simp: fun_eq_iff id_of_def city_of_def prev_of_def next_of_def parent_of_def rev_of_def size_of_def pid_of_def pprev_of_def pnext_of_def begin_of_def end_of_def set_city_def)

lemma read_other_prev [simp]:
  "id_of (set_prev t v x) = id_of t"
  "city_of (set_prev t v x) = city_of t"
  "next_of (set_prev t v x) = next_of t"
  "parent_of (set_prev t v x) = parent_of t"
  "rev_of (set_prev t v x) = rev_of t"
  "size_of (set_prev t v x) = size_of t"
  "pid_of (set_prev t v x) = pid_of t"
  "pprev_of (set_prev t v x) = pprev_of t"
  "pnext_of (set_prev t v x) = pnext_of t"
  "begin_of (set_prev t v x) = begin_of t"
  "end_of (set_prev t v x) = end_of t"
  "n_parents (set_prev t v x) = n_parents t"
  "n_nodes (set_prev t v x) = n_nodes t"
  "n_cities (set_prev t v x) = n_cities t"
  "origin_city (set_prev t v x) = origin_city t"
  "nominal_segment_length (set_prev t v x) = nominal_segment_length t"
  by (auto simp: fun_eq_iff id_of_def city_of_def prev_of_def next_of_def parent_of_def rev_of_def size_of_def pid_of_def pprev_of_def pnext_of_def begin_of_def end_of_def set_prev_def)

lemma read_other_next [simp]:
  "id_of (set_next t v x) = id_of t"
  "city_of (set_next t v x) = city_of t"
  "prev_of (set_next t v x) = prev_of t"
  "parent_of (set_next t v x) = parent_of t"
  "rev_of (set_next t v x) = rev_of t"
  "size_of (set_next t v x) = size_of t"
  "pid_of (set_next t v x) = pid_of t"
  "pprev_of (set_next t v x) = pprev_of t"
  "pnext_of (set_next t v x) = pnext_of t"
  "begin_of (set_next t v x) = begin_of t"
  "end_of (set_next t v x) = end_of t"
  "n_parents (set_next t v x) = n_parents t"
  "n_nodes (set_next t v x) = n_nodes t"
  "n_cities (set_next t v x) = n_cities t"
  "origin_city (set_next t v x) = origin_city t"
  "nominal_segment_length (set_next t v x) = nominal_segment_length t"
  by (auto simp: fun_eq_iff id_of_def city_of_def prev_of_def next_of_def parent_of_def rev_of_def size_of_def pid_of_def pprev_of_def pnext_of_def begin_of_def end_of_def set_next_def)

lemma read_other_parent [simp]:
  "id_of (set_parent t v x) = id_of t"
  "city_of (set_parent t v x) = city_of t"
  "prev_of (set_parent t v x) = prev_of t"
  "next_of (set_parent t v x) = next_of t"
  "rev_of (set_parent t v x) = rev_of t"
  "size_of (set_parent t v x) = size_of t"
  "pid_of (set_parent t v x) = pid_of t"
  "pprev_of (set_parent t v x) = pprev_of t"
  "pnext_of (set_parent t v x) = pnext_of t"
  "begin_of (set_parent t v x) = begin_of t"
  "end_of (set_parent t v x) = end_of t"
  "n_parents (set_parent t v x) = n_parents t"
  "n_nodes (set_parent t v x) = n_nodes t"
  "n_cities (set_parent t v x) = n_cities t"
  "origin_city (set_parent t v x) = origin_city t"
  "nominal_segment_length (set_parent t v x) = nominal_segment_length t"
  by (auto simp: fun_eq_iff id_of_def city_of_def prev_of_def next_of_def parent_of_def rev_of_def size_of_def pid_of_def pprev_of_def pnext_of_def begin_of_def end_of_def set_parent_def)

lemma read_other_rev [simp]:
  "id_of (set_rev t v x) = id_of t"
  "city_of (set_rev t v x) = city_of t"
  "prev_of (set_rev t v x) = prev_of t"
  "next_of (set_rev t v x) = next_of t"
  "parent_of (set_rev t v x) = parent_of t"
  "size_of (set_rev t v x) = size_of t"
  "pid_of (set_rev t v x) = pid_of t"
  "pprev_of (set_rev t v x) = pprev_of t"
  "pnext_of (set_rev t v x) = pnext_of t"
  "begin_of (set_rev t v x) = begin_of t"
  "end_of (set_rev t v x) = end_of t"
  "n_parents (set_rev t v x) = n_parents t"
  "n_nodes (set_rev t v x) = n_nodes t"
  "n_cities (set_rev t v x) = n_cities t"
  "origin_city (set_rev t v x) = origin_city t"
  "nominal_segment_length (set_rev t v x) = nominal_segment_length t"
  by (auto simp: fun_eq_iff id_of_def city_of_def prev_of_def next_of_def parent_of_def rev_of_def size_of_def pid_of_def pprev_of_def pnext_of_def begin_of_def end_of_def set_rev_def)

lemma read_other_size [simp]:
  "id_of (set_size t v x) = id_of t"
  "city_of (set_size t v x) = city_of t"
  "prev_of (set_size t v x) = prev_of t"
  "next_of (set_size t v x) = next_of t"
  "parent_of (set_size t v x) = parent_of t"
  "rev_of (set_size t v x) = rev_of t"
  "pid_of (set_size t v x) = pid_of t"
  "pprev_of (set_size t v x) = pprev_of t"
  "pnext_of (set_size t v x) = pnext_of t"
  "begin_of (set_size t v x) = begin_of t"
  "end_of (set_size t v x) = end_of t"
  "n_parents (set_size t v x) = n_parents t"
  "n_nodes (set_size t v x) = n_nodes t"
  "n_cities (set_size t v x) = n_cities t"
  "origin_city (set_size t v x) = origin_city t"
  "nominal_segment_length (set_size t v x) = nominal_segment_length t"
  by (auto simp: fun_eq_iff id_of_def city_of_def prev_of_def next_of_def parent_of_def rev_of_def size_of_def pid_of_def pprev_of_def pnext_of_def begin_of_def end_of_def set_size_def)

lemma read_other_pid [simp]:
  "id_of (set_pid t v x) = id_of t"
  "city_of (set_pid t v x) = city_of t"
  "prev_of (set_pid t v x) = prev_of t"
  "next_of (set_pid t v x) = next_of t"
  "parent_of (set_pid t v x) = parent_of t"
  "rev_of (set_pid t v x) = rev_of t"
  "size_of (set_pid t v x) = size_of t"
  "pprev_of (set_pid t v x) = pprev_of t"
  "pnext_of (set_pid t v x) = pnext_of t"
  "begin_of (set_pid t v x) = begin_of t"
  "end_of (set_pid t v x) = end_of t"
  "n_parents (set_pid t v x) = n_parents t"
  "n_nodes (set_pid t v x) = n_nodes t"
  "n_cities (set_pid t v x) = n_cities t"
  "origin_city (set_pid t v x) = origin_city t"
  "nominal_segment_length (set_pid t v x) = nominal_segment_length t"
  by (auto simp: fun_eq_iff id_of_def city_of_def prev_of_def next_of_def parent_of_def rev_of_def size_of_def pid_of_def pprev_of_def pnext_of_def begin_of_def end_of_def set_pid_def)

lemma read_other_pprev [simp]:
  "id_of (set_pprev t v x) = id_of t"
  "city_of (set_pprev t v x) = city_of t"
  "prev_of (set_pprev t v x) = prev_of t"
  "next_of (set_pprev t v x) = next_of t"
  "parent_of (set_pprev t v x) = parent_of t"
  "rev_of (set_pprev t v x) = rev_of t"
  "size_of (set_pprev t v x) = size_of t"
  "pid_of (set_pprev t v x) = pid_of t"
  "pnext_of (set_pprev t v x) = pnext_of t"
  "begin_of (set_pprev t v x) = begin_of t"
  "end_of (set_pprev t v x) = end_of t"
  "n_parents (set_pprev t v x) = n_parents t"
  "n_nodes (set_pprev t v x) = n_nodes t"
  "n_cities (set_pprev t v x) = n_cities t"
  "origin_city (set_pprev t v x) = origin_city t"
  "nominal_segment_length (set_pprev t v x) = nominal_segment_length t"
  by (auto simp: fun_eq_iff id_of_def city_of_def prev_of_def next_of_def parent_of_def rev_of_def size_of_def pid_of_def pprev_of_def pnext_of_def begin_of_def end_of_def set_pprev_def)

lemma read_other_pnext [simp]:
  "id_of (set_pnext t v x) = id_of t"
  "city_of (set_pnext t v x) = city_of t"
  "prev_of (set_pnext t v x) = prev_of t"
  "next_of (set_pnext t v x) = next_of t"
  "parent_of (set_pnext t v x) = parent_of t"
  "rev_of (set_pnext t v x) = rev_of t"
  "size_of (set_pnext t v x) = size_of t"
  "pid_of (set_pnext t v x) = pid_of t"
  "pprev_of (set_pnext t v x) = pprev_of t"
  "begin_of (set_pnext t v x) = begin_of t"
  "end_of (set_pnext t v x) = end_of t"
  "n_parents (set_pnext t v x) = n_parents t"
  "n_nodes (set_pnext t v x) = n_nodes t"
  "n_cities (set_pnext t v x) = n_cities t"
  "origin_city (set_pnext t v x) = origin_city t"
  "nominal_segment_length (set_pnext t v x) = nominal_segment_length t"
  by (auto simp: fun_eq_iff id_of_def city_of_def prev_of_def next_of_def parent_of_def rev_of_def size_of_def pid_of_def pprev_of_def pnext_of_def begin_of_def end_of_def set_pnext_def)

lemma read_other_begin [simp]:
  "id_of (set_begin t v x) = id_of t"
  "city_of (set_begin t v x) = city_of t"
  "prev_of (set_begin t v x) = prev_of t"
  "next_of (set_begin t v x) = next_of t"
  "parent_of (set_begin t v x) = parent_of t"
  "rev_of (set_begin t v x) = rev_of t"
  "size_of (set_begin t v x) = size_of t"
  "pid_of (set_begin t v x) = pid_of t"
  "pprev_of (set_begin t v x) = pprev_of t"
  "pnext_of (set_begin t v x) = pnext_of t"
  "end_of (set_begin t v x) = end_of t"
  "n_parents (set_begin t v x) = n_parents t"
  "n_nodes (set_begin t v x) = n_nodes t"
  "n_cities (set_begin t v x) = n_cities t"
  "origin_city (set_begin t v x) = origin_city t"
  "nominal_segment_length (set_begin t v x) = nominal_segment_length t"
  by (auto simp: fun_eq_iff id_of_def city_of_def prev_of_def next_of_def parent_of_def rev_of_def size_of_def pid_of_def pprev_of_def pnext_of_def begin_of_def end_of_def set_begin_def)

lemma read_other_end [simp]:
  "id_of (set_end t v x) = id_of t"
  "city_of (set_end t v x) = city_of t"
  "prev_of (set_end t v x) = prev_of t"
  "next_of (set_end t v x) = next_of t"
  "parent_of (set_end t v x) = parent_of t"
  "rev_of (set_end t v x) = rev_of t"
  "size_of (set_end t v x) = size_of t"
  "pid_of (set_end t v x) = pid_of t"
  "pprev_of (set_end t v x) = pprev_of t"
  "pnext_of (set_end t v x) = pnext_of t"
  "begin_of (set_end t v x) = begin_of t"
  "n_parents (set_end t v x) = n_parents t"
  "n_nodes (set_end t v x) = n_nodes t"
  "n_cities (set_end t v x) = n_cities t"
  "origin_city (set_end t v x) = origin_city t"
  "nominal_segment_length (set_end t v x) = nominal_segment_length t"
  by (auto simp: fun_eq_iff id_of_def city_of_def prev_of_def next_of_def parent_of_def rev_of_def size_of_def pid_of_def pprev_of_def pnext_of_def begin_of_def end_of_def set_end_def)

section \<open>Logical links\<close>

lemma get_next_frame [simp]:
  "get_next (set_id t v i) = get_next t"
  "get_next (set_city t v i) = get_next t"
  "get_next (set_size t p i) = get_next t"
  "get_next (set_pid t p i) = get_next t"
  "get_next (set_pprev t p q) = get_next t"
  "get_next (set_pnext t p q) = get_next t"
  "get_next (set_begin t p q) = get_next t"
  "get_next (set_end t p q) = get_next t"
  by (simp_all add: fun_eq_iff get_next_def)

lemma get_prev_frame [simp]:
  "get_prev (set_id t v i) = get_prev t"
  "get_prev (set_city t v i) = get_prev t"
  "get_prev (set_size t p i) = get_prev t"
  "get_prev (set_pid t p i) = get_prev t"
  "get_prev (set_pprev t p q) = get_prev t"
  "get_prev (set_pnext t p q) = get_prev t"
  "get_prev (set_begin t p q) = get_prev t"
  "get_prev (set_end t p q) = get_prev t"
  by (simp_all add: fun_eq_iff get_prev_def)

lemma forward_begin_frame [simp]:
  "forward_begin_node (set_id t v i) = forward_begin_node t"
  "forward_begin_node (set_city t v i) = forward_begin_node t"
  "forward_begin_node (set_prev t v w) = forward_begin_node t"
  "forward_begin_node (set_next t v w) = forward_begin_node t"
  "forward_begin_node (set_parent t v p) = forward_begin_node t"
  "forward_begin_node (set_size t p i) = forward_begin_node t"
  "forward_begin_node (set_pid t p i) = forward_begin_node t"
  "forward_begin_node (set_pprev t p q) = forward_begin_node t"
  "forward_begin_node (set_pnext t p q) = forward_begin_node t"
  by (simp_all add: fun_eq_iff forward_begin_node_def)

lemma forward_end_frame [simp]:
  "forward_end_node (set_id t v i) = forward_end_node t"
  "forward_end_node (set_city t v i) = forward_end_node t"
  "forward_end_node (set_prev t v w) = forward_end_node t"
  "forward_end_node (set_next t v w) = forward_end_node t"
  "forward_end_node (set_parent t v p) = forward_end_node t"
  "forward_end_node (set_size t p i) = forward_end_node t"
  "forward_end_node (set_pid t p i) = forward_end_node t"
  "forward_end_node (set_pprev t p q) = forward_end_node t"
  "forward_end_node (set_pnext t p q) = forward_end_node t"
  by (simp_all add: fun_eq_iff forward_end_node_def)

text \<open>\<^verbatim>\<open>connect_arc_forward(p, q)\<close> makes \<open>q\<close> the logical successor of \<open>p\<close> and
  \<open>p\<close> the logical predecessor of \<open>q\<close>, and touches nothing else.\<close>

lemma connect_arc_forward_fields [simp]:
  "id_of (connect_arc_forward t p q) = id_of t"
  "city_of (connect_arc_forward t p q) = city_of t"
  "parent_of (connect_arc_forward t p q) = parent_of t"
  "rev_of (connect_arc_forward t p q) = rev_of t"
  "size_of (connect_arc_forward t p q) = size_of t"
  "pid_of (connect_arc_forward t p q) = pid_of t"
  "pprev_of (connect_arc_forward t p q) = pprev_of t"
  "pnext_of (connect_arc_forward t p q) = pnext_of t"
  "begin_of (connect_arc_forward t p q) = begin_of t"
  "end_of (connect_arc_forward t p q) = end_of t"
  "n_parents (connect_arc_forward t p q) = n_parents t"
  "n_nodes (connect_arc_forward t p q) = n_nodes t"
  "n_cities (connect_arc_forward t p q) = n_cities t"
  "origin_city (connect_arc_forward t p q) = origin_city t"
  "nominal_segment_length (connect_arc_forward t p q) = nominal_segment_length t"
  "forward_begin_node (connect_arc_forward t p q) = forward_begin_node t"
  "forward_end_node (connect_arc_forward t p q) = forward_end_node t"
  by (simp_all add: connect_arc_forward_def Let_def)

lemma get_next_connect [simp]:
  "get_next (connect_arc_forward t p q) = (get_next t)(p := q)"
  by (auto simp: fun_eq_iff connect_arc_forward_def get_next_def Let_def)

lemma get_prev_connect [simp]:
  "get_prev (connect_arc_forward t p q) = (get_prev t)(q := p)"
  by (auto simp: fun_eq_iff connect_arc_forward_def get_prev_def Let_def)

lemma raw_links:
  "next_of t v = (if rev_of t (parent_of t v) then get_prev t v else get_next t v)"
  "prev_of t v = (if rev_of t (parent_of t v) then get_next t v else get_prev t v)"
  by (simp_all add: get_next_def get_prev_def)


section \<open>The representation invariant\<close>

text \<open>
  A tree is described by the list of its segments in the order of the parents' \<open>next\<close>
  links; a segment is its parent and its nodes in logical forward order.
\<close>

definition dir_of :: "two_level_tree \<Rightarrow> nat \<Rightarrow> int" where
  "dir_of t p = (if rev_of t p then - 1 else 1)"

definition seg_ok :: "two_level_tree \<Rightarrow> nat \<Rightarrow> nat list \<Rightarrow> bool" where
  "seg_ok t p ns \<longleftrightarrow>
     ns \<noteq> [] \<and> size_of t p = int (length ns) \<and> (\<forall>v\<in>set ns. parent_of t v = p) \<and>
     forward_begin_node t p = hd ns \<and> forward_end_node t p = last ns \<and>
     successively (\<lambda>u v. id_of t v = id_of t u + dir_of t p) ns"

definition cyclic :: "('a \<Rightarrow> 'a \<Rightarrow> bool) \<Rightarrow> 'a list \<Rightarrow> bool" where
  "cyclic R xs \<longleftrightarrow> successively R (xs @ [hd xs])"

definition linked :: "two_level_tree \<Rightarrow> nat \<Rightarrow> nat \<Rightarrow> bool" where
  "linked t u v \<longleftrightarrow> get_next t u = v \<and> get_prev t v = u"

definition plinked :: "two_level_tree \<Rightarrow> nat \<Rightarrow> nat \<Rightarrow> bool" where
  "plinked t p q \<longleftrightarrow> pnext_of t p = q \<and> pprev_of t q = p \<and>
     pid_of t q = (pid_of t p + 1) mod int (n_parents t)"

definition tour_of :: "(nat \<times> nat list) list \<Rightarrow> nat list" where
  "tour_of segs = concat (map snd segs)"

definition tree_inv :: "two_level_tree \<Rightarrow> (nat \<times> nat list) list \<Rightarrow> bool" where
  "tree_inv t segs \<longleftrightarrow>
     2 \<le> n_parents t \<and> length segs = n_parents t \<and>
     distinct (map fst segs) \<and> (\<forall>p\<in>set (map fst segs). p < n_parents t) \<and>
     n_nodes t = n_cities t + origin_city t \<and>
     distinct (tour_of segs) \<and>
     set (tour_of segs) = {origin_city t ..< origin_city t + n_cities t} \<and>
     (\<forall>v\<in>set (tour_of segs). city_of t v = int v) \<and>
     (\<forall>s\<in>set segs. seg_ok t (fst s) (snd s)) \<and>
     cyclic (linked t) (tour_of segs) \<and>
     cyclic (plinked t) (map fst segs)"

definition valid :: "two_level_tree \<Rightarrow> bool" where
  "valid t \<longleftrightarrow> (\<exists>segs. tree_inv t segs)"

subsection \<open>Cyclic lists\<close>

lemma cyclic_Cons: "cyclic R (x # xs) \<longleftrightarrow> successively R (x # xs @ [x])"
  by (simp add: cyclic_def)

lemma successively_snoc:
  "successively R (xs @ [x]) \<longleftrightarrow> successively R xs \<and> (xs \<noteq> [] \<longrightarrow> R (last xs) x)"
  by (auto simp: successively_append_iff)

lemma successively_snoc2:
  "successively R (xs @ [x, y]) \<longleftrightarrow> successively R (xs @ [x]) \<and> R x y"
  using successively_snoc[of R "xs @ [x]" y] by simp

lemma cyclic_rotate1: "cyclic R xs \<Longrightarrow> cyclic R (rotate1 xs)"
proof (cases xs)
  case Nil
  then show ?thesis by (simp add: cyclic_def)
next
  case (Cons x ys)
  assume "cyclic R xs"
  with Cons have *: "successively R (x # ys @ [x])" by (simp add: cyclic_def)
  show ?thesis
  proof (cases ys)
    case Nil
    with * Cons show ?thesis by (simp add: cyclic_def)
  next
    case (Cons y zs)
    with * have "R x y" "successively R ((y # zs) @ [x])" by simp_all
    then have "successively R ((y # zs) @ [x, y])"
      by (simp only: successively_snoc2 simp_thms)
    with Cons \<open>xs = x # ys\<close> show ?thesis by (simp add: cyclic_def)
  qed
qed

lemma cyclic_rotate: "cyclic R xs \<Longrightarrow> cyclic R (rotate n xs)"
  by (induction n) (simp_all add: cyclic_rotate1)

lemma cyclic_cong:
  assumes "\<And>u v. u \<in> set xs \<Longrightarrow> v \<in> set xs \<Longrightarrow> R u v = R' u v"
  shows "cyclic R xs = cyclic R' xs"
proof (cases xs)
  case Nil
  then show ?thesis by (simp add: cyclic_def)
next
  case (Cons x ys)
  have "successively R (xs @ [hd xs]) = successively R' (xs @ [hd xs])"
    by (rule successively_cong) (use Cons assms in auto)
  then show ?thesis by (simp add: cyclic_def)
qed

lemma tour_of_simps [simp]:
  "tour_of [] = []"
  "tour_of ((p, ns) # segs) = ns @ tour_of segs"
  "tour_of (segs @ segs') = tour_of segs @ tour_of segs'"
  by (simp_all add: tour_of_def)

lemma tour_of_rotate1:
  "tour_of (rotate1 segs) = rotate (length (snd (hd segs))) (tour_of segs)"
  by (cases segs) (auto simp: rotate_append)

lemma tree_inv_rotate1:
  assumes "tree_inv t segs"
  shows "tree_inv t (rotate1 segs)"
proof -
  have "cyclic (linked t) (tour_of (rotate1 segs))"
    using assms by (simp add: tour_of_rotate1 cyclic_rotate tree_inv_def)
  moreover have "cyclic (plinked t) (map fst (rotate1 segs))"
    using assms by (simp add: rotate1_map[symmetric] cyclic_rotate1 tree_inv_def)
  moreover have "distinct (tour_of (rotate1 segs))" "set (tour_of (rotate1 segs)) = set (tour_of segs)"
    using assms by (simp_all add: tour_of_rotate1 tree_inv_def)
  moreover have "distinct (map fst (rotate1 segs))" "set (map fst (rotate1 segs)) = set (map fst segs)"
    using assms by (simp_all add: rotate1_map[symmetric] tree_inv_def)
  ultimately show ?thesis
    using assms unfolding tree_inv_def by simp
qed

lemma tree_inv_rotate: "tree_inv t segs \<Longrightarrow> tree_inv t (rotate n segs)"
  by (induction n) (simp_all add: tree_inv_rotate1)

text \<open>Any segment can be brought to the front.\<close>

lemma tree_inv_split_rotate:
  "tree_inv t (l @ r) \<Longrightarrow> tree_inv t (r @ l)"
  using tree_inv_rotate[of t "l @ r" "length l"] by (simp add: rotate_append)

lemma in_tour_ofE:
  assumes "v \<in> set (tour_of segs)"
  obtains l p pre post r where "segs = l @ (p, pre @ v # post) # r"
proof -
  from assms obtain s where s: "s \<in> set segs" "v \<in> set (snd s)"
    by (auto simp: tour_of_def)
  then obtain l r where "segs = l @ s # r" by (meson split_list)
  moreover from s obtain pre post where "snd s = pre @ v # post" by (meson split_list)
  ultimately have "segs = l @ (fst s, pre @ v # post) # r" by (metis prod.collapse)
  then show thesis by (rule that)
qed

lemma tree_inv_first:
  assumes "tree_inv t segs" "v \<in> set (tour_of segs)"
  obtains p pre post rest where "tree_inv t ((p, pre @ v # post) # rest)"
proof -
  from assms(2) obtain l p pre post r where "segs = l @ (p, pre @ v # post) # r"
    by (rule in_tour_ofE)
  with assms(1) have "tree_inv t (((p, pre @ v # post) # r) @ l)"
    using tree_inv_split_rotate by blast
  then show thesis using that by simp
qed


section \<open>Frames\<close>

text \<open>The node-level writes leave the parent arena and the sizes of the tree alone.\<close>

lemma parent_nodes_node_writes [simp]:
  "parent_nodes (set_id t v i) = parent_nodes t"
  "parent_nodes (set_city t v i) = parent_nodes t"
  "parent_nodes (set_prev t v w) = parent_nodes t"
  "parent_nodes (set_next t v w) = parent_nodes t"
  "parent_nodes (set_parent t v p) = parent_nodes t"
  "parent_nodes (connect_arc_forward t v w) = parent_nodes t"
  by (simp_all add: set_id_def set_city_def set_prev_def set_next_def set_parent_def
      connect_arc_forward_def Let_def)

definition pframe :: "two_level_tree \<Rightarrow> two_level_tree \<Rightarrow> bool" where
  "pframe t t' \<longleftrightarrow> parent_nodes t' = parent_nodes t \<and> n_parents t' = n_parents t \<and>
     n_nodes t' = n_nodes t \<and> n_cities t' = n_cities t \<and> origin_city t' = origin_city t \<and>
     nominal_segment_length t' = nominal_segment_length t \<and> city_of t' = city_of t"

lemma pframe_refl [simp]: "pframe t t"
  by (simp add: pframe_def)

lemma pframe_trans: "pframe t t' \<Longrightarrow> pframe t' t'' \<Longrightarrow> pframe t t''"
  by (simp add: pframe_def)

lemma pframeD:
  assumes "pframe t t'"
  shows "rev_of t' = rev_of t" "size_of t' = size_of t" "pid_of t' = pid_of t"
    "pprev_of t' = pprev_of t" "pnext_of t' = pnext_of t" "begin_of t' = begin_of t"
    "end_of t' = end_of t" "n_parents t' = n_parents t" "n_nodes t' = n_nodes t"
    "n_cities t' = n_cities t" "origin_city t' = origin_city t"
    "nominal_segment_length t' = nominal_segment_length t" "city_of t' = city_of t"
    "forward_begin_node t' = forward_begin_node t" "forward_end_node t' = forward_end_node t"
    "dir_of t' = dir_of t"
  using assms
  by (simp_all add: pframe_def fun_eq_iff rev_of_def size_of_def pid_of_def pprev_of_def
      pnext_of_def begin_of_def end_of_def forward_begin_node_def forward_end_node_def dir_of_def)

lemma pframe_node_writes [simp]:
  "pframe t (set_id t v i)"
  "pframe t (set_prev t v w)"
  "pframe t (set_next t v w)"
  "pframe t (set_parent t v p)"
  "pframe t (connect_arc_forward t v w)"
  by (simp_all add: pframe_def)

lemma get_next_set_parent: "w \<noteq> v \<Longrightarrow> get_next (set_parent t v p) w = get_next t w"
  by (simp add: get_next_def)

lemma get_prev_set_parent: "w \<noteq> v \<Longrightarrow> get_prev (set_parent t v p) w = get_prev t w"
  by (simp add: get_prev_def)

subsection \<open>Facts about chains\<close>

lemma successively_next_eq:
  "successively (\<lambda>u v. f u = v) (zs @ [z]) \<Longrightarrow> successively (\<lambda>u v. g u = v) (zs @ [z]) \<Longrightarrow>
   v \<in> set zs \<Longrightarrow> f v = g v"
  by (induction zs) (auto simp: successively_Cons)

lemma successively_prev_eq:
  "successively (\<lambda>u v. f v = u) (z # zs) \<Longrightarrow> successively (\<lambda>u v. g v = u) (z # zs) \<Longrightarrow>
   v \<in> set zs \<Longrightarrow> f v = g v"
  by (induction zs arbitrary: z) (auto simp: successively_Cons)

lemma successively_conj:
  "successively (\<lambda>u v. P u v \<and> Q u v) xs \<longleftrightarrow> successively P xs \<and> successively Q xs"
  by (induction xs rule: induct_list012) auto

lemma successively_sub_cong:
  "successively P xs \<Longrightarrow> (\<And>u v. u \<in> set xs \<Longrightarrow> v \<in> set xs \<Longrightarrow> P u v \<Longrightarrow> Q u v) \<Longrightarrow>
   successively Q xs"
  by (induction xs rule: induct_list012) auto


section \<open>split\_and\_merge\<close>

subsection \<open>The collecting loops\<close>

lemma collect_forward_run:
  "successively (\<lambda>u v. get_next t u = v) (zs @ [z]) \<Longrightarrow> \<forall>v\<in>set zs. parent_of t v = sp \<Longrightarrow>
   parent_of t z \<noteq> sp \<Longrightarrow> collect_forward t sp (hd (zs @ [z])) acc = Some (acc @ zs)"
proof (induction zs arbitrary: acc)
  case Nil
  then show ?case by (subst collect_forward.simps) simp
next
  case (Cons x zs)
  from Cons.prems have "get_next t x = hd (zs @ [z])"
    by (cases zs) auto
  moreover from Cons.prems have "successively (\<lambda>u v. get_next t u = v) (zs @ [z])"
    by (cases zs) auto
  ultimately show ?case
    using Cons.IH[of "acc @ [x]"] Cons.prems
    by (subst collect_forward.simps) simp
qed

lemma collect_backward_run:
  "successively (\<lambda>u v. get_prev t v = u) (z # zs) \<Longrightarrow> \<forall>v\<in>set zs. parent_of t v = sp \<Longrightarrow>
   parent_of t z \<noteq> sp \<Longrightarrow> collect_backward t sp (last (z # zs)) acc = Some (acc @ rev zs)"
proof (induction zs arbitrary: acc rule: rev_induct)
  case Nil
  then show ?case by (subst collect_backward.simps) simp
next
  case (snoc x zs)
  from snoc.prems have "get_prev t x = last (z # zs)"
    by (auto simp: successively_append_iff successively_Cons split: if_splits)
  moreover from snoc.prems have "successively (\<lambda>u v. get_prev t v = u) (z # zs)"
    using successively_snoc[of _ "z # zs" x] by simp
  ultimately show ?case
    using snoc.IH[of "acc @ [x]"] snoc.prems
    by (subst collect_backward.simps) simp
qed

subsection \<open>The merging loops\<close>

definition merge_forward_step :: "two_level_tree \<Rightarrow> nat \<Rightarrow> int \<Rightarrow> nat \<Rightarrow> nat \<Rightarrow> two_level_tree" where
  "merge_forward_step t nb d q p =
     set_id (connect_arc_forward (set_parent t p nb) p q) p (id_of t q + d)"

lemma merge_forward_Cons:
  "merge_forward t nb d q (p # ps) = merge_forward (merge_forward_step t nb d q p) nb d p ps"
  by (simp add: merge_forward_step_def Let_def)

lemma merge_forward_step_facts:
  "pframe t (merge_forward_step t nb d q p)"
  "parent_of (merge_forward_step t nb d q p) = (parent_of t)(p := nb)"
  "id_of (merge_forward_step t nb d q p) = (id_of t)(p := id_of t q + d)"
  "get_next (merge_forward_step t nb d q p) p = q"
  "get_prev (merge_forward_step t nb d q p) q = p"
  "v \<noteq> p \<Longrightarrow> get_next (merge_forward_step t nb d q p) v = get_next t v"
  "v \<noteq> p \<Longrightarrow> v \<noteq> q \<Longrightarrow> get_prev (merge_forward_step t nb d q p) v = get_prev t v"
  by (simp_all add: merge_forward_step_def pframe_def get_next_set_parent get_prev_set_parent)

lemma merge_forward_spec:
  assumes "distinct (q0 # stack)" "parent_of t q0 = nb"
  shows "snd (merge_forward t nb d q0 stack) = last (q0 # stack)"
    and "pframe t (fst (merge_forward t nb d q0 stack))"
    and "\<forall>v. v \<notin> set stack \<longrightarrow> parent_of (fst (merge_forward t nb d q0 stack)) v = parent_of t v"
    and "\<forall>v. v \<notin> set stack \<longrightarrow> id_of (fst (merge_forward t nb d q0 stack)) v = id_of t v"
    and "\<forall>v. v \<notin> set stack \<longrightarrow> get_next (fst (merge_forward t nb d q0 stack)) v = get_next t v"
    and "\<forall>v. v \<notin> set (q0 # stack) \<longrightarrow>
           get_prev (fst (merge_forward t nb d q0 stack)) v = get_prev t v"
    and "\<forall>v\<in>set stack. parent_of (fst (merge_forward t nb d q0 stack)) v = nb"
    and "successively (\<lambda>u v. get_next (fst (merge_forward t nb d q0 stack)) u = v \<and>
                               get_prev (fst (merge_forward t nb d q0 stack)) v = u \<and>
                               id_of (fst (merge_forward t nb d q0 stack)) u =
                               id_of (fst (merge_forward t nb d q0 stack)) v + d)
           (rev stack @ [q0])"
  using assms
proof (induction stack arbitrary: t q0)
  case Nil
  {
    case 1 show ?case by simp
  next
    case 2 show ?case by simp
  next
    case 3 show ?case by simp
  next
    case 4 show ?case by simp
  next
    case 5 show ?case by simp
  next
    case 6 show ?case by simp
  next
    case 7 show ?case by simp
  next
    case 8 show ?case by simp
  }
next
  case (Cons p ps)
  note facts = merge_forward_step_facts
  {
    case 1
    then have d: "distinct (p # ps)" "parent_of (merge_forward_step t nb d q0 p) p = nb"
      by (simp_all add: facts)
    show ?case unfolding merge_forward_Cons using Cons.IH(1)[OF d] by simp
  next
    case 2
    then have d: "distinct (p # ps)" "parent_of (merge_forward_step t nb d q0 p) p = nb"
      by (simp_all add: facts)
    show ?case unfolding merge_forward_Cons
      using Cons.IH(2)[OF d] facts(1)[of t nb d q0 p] by (rule_tac pframe_trans)
  next
    case 3
    then have d: "distinct (p # ps)" "parent_of (merge_forward_step t nb d q0 p) p = nb"
      by (simp_all add: facts)
    show ?case unfolding merge_forward_Cons using Cons.IH(3)[OF d] by (simp add: facts)
  next
    case 4
    then have d: "distinct (p # ps)" "parent_of (merge_forward_step t nb d q0 p) p = nb"
      by (simp_all add: facts)
    show ?case unfolding merge_forward_Cons using Cons.IH(4)[OF d] by (simp add: facts)
  next
    case 5
    then have d: "distinct (p # ps)" "parent_of (merge_forward_step t nb d q0 p) p = nb"
      by (simp_all add: facts)
    show ?case unfolding merge_forward_Cons using Cons.IH(5)[OF d] by (simp add: facts)
  next
    case 6
    then have d: "distinct (p # ps)" "parent_of (merge_forward_step t nb d q0 p) p = nb"
      by (simp_all add: facts)
    show ?case unfolding merge_forward_Cons using Cons.IH(6)[OF d] by (simp add: facts)
  next
    case 7
    then have d: "distinct (p # ps)" "parent_of (merge_forward_step t nb d q0 p) p = nb"
      by (simp_all add: facts)
    show ?case unfolding merge_forward_Cons
      using Cons.IH(7)[OF d] Cons.IH(3)[OF d] by (auto simp add: facts)
  next
    case 8
    then have d: "distinct (p # ps)" "parent_of (merge_forward_step t nb d q0 p) p = nb"
      by (simp_all add: facts)
    from 8 have ne: "q0 \<noteq> p" "q0 \<notin> set ps" "p \<notin> set ps" by auto
    let ?t' = "fst (merge_forward (merge_forward_step t nb d q0 p) nb d p ps)"
    have a: "get_next ?t' p = q0"
      using Cons.IH(5)[OF d] ne by (simp add: facts)
    have b: "get_prev ?t' q0 = p"
      using Cons.IH(6)[OF d] ne by (simp add: facts)
    have c: "id_of ?t' p = id_of ?t' q0 + d"
      using Cons.IH(4)[OF d] ne by (simp add: facts)
    let ?P = "\<lambda>u v. get_next ?t' u = v \<and> get_prev ?t' v = u \<and> id_of ?t' u = id_of ?t' v + d"
    have s1: "successively ?P (rev ps @ [p])" by (rule Cons.IH(8)[OF d])
    have "successively ?P (rev ps @ [p, q0])"
      by (rule successively_snoc2[THEN iffD2]) (intro conjI s1 a b c)
    then show ?case unfolding merge_forward_Cons
      by (simp only: rev.simps append_assoc append_Cons append_Nil)
  }
qed

definition merge_backward_step :: "two_level_tree \<Rightarrow> nat \<Rightarrow> int \<Rightarrow> nat \<Rightarrow> nat \<Rightarrow> two_level_tree" where
  "merge_backward_step t nb d q p =
     set_id (connect_arc_forward (set_parent t p nb) q p) p (id_of t q + d)"

lemma merge_backward_Cons:
  "merge_backward t nb d q (p # ps) = merge_backward (merge_backward_step t nb d q p) nb d p ps"
  by (simp add: merge_backward_step_def Let_def)

lemma merge_backward_step_facts:
  "pframe t (merge_backward_step t nb d q p)"
  "parent_of (merge_backward_step t nb d q p) = (parent_of t)(p := nb)"
  "id_of (merge_backward_step t nb d q p) = (id_of t)(p := id_of t q + d)"
  "get_next (merge_backward_step t nb d q p) q = p"
  "get_prev (merge_backward_step t nb d q p) p = q"
  "v \<noteq> p \<Longrightarrow> get_prev (merge_backward_step t nb d q p) v = get_prev t v"
  "v \<noteq> p \<Longrightarrow> v \<noteq> q \<Longrightarrow> get_next (merge_backward_step t nb d q p) v = get_next t v"
  by (simp_all add: merge_backward_step_def pframe_def get_next_set_parent get_prev_set_parent)

lemma merge_backward_spec:
  assumes "distinct (q0 # stack)" "parent_of t q0 = nb"
  shows "snd (merge_backward t nb d q0 stack) = last (q0 # stack)"
    and "pframe t (fst (merge_backward t nb d q0 stack))"
    and "\<forall>v. v \<notin> set stack \<longrightarrow> parent_of (fst (merge_backward t nb d q0 stack)) v = parent_of t v"
    and "\<forall>v. v \<notin> set stack \<longrightarrow> id_of (fst (merge_backward t nb d q0 stack)) v = id_of t v"
    and "\<forall>v. v \<notin> set stack \<longrightarrow> get_prev (fst (merge_backward t nb d q0 stack)) v = get_prev t v"
    and "\<forall>v. v \<notin> set (q0 # stack) \<longrightarrow>
           get_next (fst (merge_backward t nb d q0 stack)) v = get_next t v"
    and "\<forall>v\<in>set stack. parent_of (fst (merge_backward t nb d q0 stack)) v = nb"
    and "successively (\<lambda>u v. get_next (fst (merge_backward t nb d q0 stack)) u = v \<and>
                               get_prev (fst (merge_backward t nb d q0 stack)) v = u \<and>
                               id_of (fst (merge_backward t nb d q0 stack)) v =
                               id_of (fst (merge_backward t nb d q0 stack)) u + d)
           (q0 # stack)"
  using assms
proof (induction stack arbitrary: t q0)
  case Nil
  {
    case 1 show ?case by simp
  next
    case 2 show ?case by simp
  next
    case 3 show ?case by simp
  next
    case 4 show ?case by simp
  next
    case 5 show ?case by simp
  next
    case 6 show ?case by simp
  next
    case 7 show ?case by simp
  next
    case 8 show ?case by simp
  }
next
  case (Cons p ps)
  note facts = merge_backward_step_facts
  {
    case 1
    then have d: "distinct (p # ps)" "parent_of (merge_backward_step t nb d q0 p) p = nb"
      by (simp_all add: facts)
    show ?case unfolding merge_backward_Cons using Cons.IH(1)[OF d] by simp
  next
    case 2
    then have d: "distinct (p # ps)" "parent_of (merge_backward_step t nb d q0 p) p = nb"
      by (simp_all add: facts)
    show ?case unfolding merge_backward_Cons
      using Cons.IH(2)[OF d] facts(1)[of t nb d q0 p] by (rule_tac pframe_trans)
  next
    case 3
    then have d: "distinct (p # ps)" "parent_of (merge_backward_step t nb d q0 p) p = nb"
      by (simp_all add: facts)
    show ?case unfolding merge_backward_Cons using Cons.IH(3)[OF d] by (simp add: facts)
  next
    case 4
    then have d: "distinct (p # ps)" "parent_of (merge_backward_step t nb d q0 p) p = nb"
      by (simp_all add: facts)
    show ?case unfolding merge_backward_Cons using Cons.IH(4)[OF d] by (simp add: facts)
  next
    case 5
    then have d: "distinct (p # ps)" "parent_of (merge_backward_step t nb d q0 p) p = nb"
      by (simp_all add: facts)
    show ?case unfolding merge_backward_Cons using Cons.IH(5)[OF d] by (simp add: facts)
  next
    case 6
    then have d: "distinct (p # ps)" "parent_of (merge_backward_step t nb d q0 p) p = nb"
      by (simp_all add: facts)
    show ?case unfolding merge_backward_Cons using Cons.IH(6)[OF d] by (simp add: facts)
  next
    case 7
    then have d: "distinct (p # ps)" "parent_of (merge_backward_step t nb d q0 p) p = nb"
      by (simp_all add: facts)
    show ?case unfolding merge_backward_Cons
      using Cons.IH(7)[OF d] Cons.IH(3)[OF d] by (auto simp add: facts)
  next
    case 8
    then have d: "distinct (p # ps)" "parent_of (merge_backward_step t nb d q0 p) p = nb"
      by (simp_all add: facts)
    from 8 have ne: "q0 \<noteq> p" "q0 \<notin> set ps" "p \<notin> set ps" by auto
    let ?t' = "fst (merge_backward (merge_backward_step t nb d q0 p) nb d p ps)"
    have a: "get_next ?t' q0 = p"
      using Cons.IH(6)[OF d] ne by (simp add: facts)
    have b: "get_prev ?t' p = q0"
      using Cons.IH(5)[OF d] ne by (simp add: facts)
    have c: "id_of ?t' p = id_of ?t' q0 + d"
      using Cons.IH(4)[OF d] ne by (simp add: facts)
    let ?P = "\<lambda>u v. get_next ?t' u = v \<and> get_prev ?t' v = u \<and> id_of ?t' v = id_of ?t' u + d"
    have s1: "successively ?P (p # ps)" by (rule Cons.IH(8)[OF d])
    have "successively ?P (q0 # p # ps)"
      using s1 a b c by simp
    then show ?case unfolding merge_backward_Cons .
  }
qed


subsection \<open>What the invariant says about two neighbouring segments\<close>

lemma seg_okD:
  assumes "seg_ok t p ns"
  shows "ns \<noteq> []" "size_of t p = int (length ns)" "\<And>v. v \<in> set ns \<Longrightarrow> parent_of t v = p"
    "forward_begin_node t p = hd ns" "forward_end_node t p = last ns"
    "successively (\<lambda>u v. id_of t v = id_of t u + dir_of t p) ns"
  using assms by (simp_all add: seg_ok_def)

lemma tree_inv_two:
  assumes "tree_inv t ((p, xs) # (q, ys) # rest)"
  shows "seg_ok t p xs" "seg_ok t q ys" "\<forall>s\<in>set rest. seg_ok t (fst s) (snd s)"
    "p \<noteq> q" "p \<notin> fst ` set rest" "q \<notin> fst ` set rest"
    "distinct (xs @ ys @ tour_of rest)"
    "successively (linked t) (xs @ ys @ tour_of rest @ [hd xs])"
    "pnext_of t p = q" "pprev_of t q = p" "xs \<noteq> []" "ys \<noteq> []"
proof -
  show a: "seg_ok t p xs" "seg_ok t q ys" "\<forall>s\<in>set rest. seg_ok t (fst s) (snd s)"
    using assms by (simp_all add: tree_inv_def)
  show "xs \<noteq> []" "ys \<noteq> []" using a by (simp_all add: seg_ok_def)
  then show "successively (linked t) (xs @ ys @ tour_of rest @ [hd xs])"
    using assms by (simp add: tree_inv_def cyclic_def)
  show "p \<noteq> q" "p \<notin> fst ` set rest" "q \<notin> fst ` set rest" "distinct (xs @ ys @ tour_of rest)"
    using assms by (auto simp add: tree_inv_def)
  show "pnext_of t p = q" "pprev_of t q = p"
    using assms by (simp_all add: tree_inv_def cyclic_def plinked_def)
qed

lemma tree_inv_fields:
  assumes "tree_inv t segs"
  shows "2 \<le> n_parents t" "length segs = n_parents t" "n_nodes t = n_cities t + origin_city t"
    "set (tour_of segs) = {origin_city t ..< origin_city t + n_cities t}"
    "\<And>v. v \<in> set (tour_of segs) \<Longrightarrow> city_of t v = int v"
    "distinct (tour_of segs)" "distinct (map fst segs)"
  using assms by (simp_all add: tree_inv_def)

text \<open>Two trees with the same logical links, parents and local IDs on the tour satisfy the
  invariant together, for each segment that keeps its description.\<close>

lemma seg_ok_cong:
  assumes "seg_ok t p ns"
    and "size_of t' p = size_of t p" "rev_of t' p = rev_of t p"
    and "begin_of t' p = begin_of t p" "end_of t' p = end_of t p"
    and "\<And>v. v \<in> set ns \<Longrightarrow> parent_of t' v = parent_of t v"
    and "\<And>v. v \<in> set ns \<Longrightarrow> id_of t' v = id_of t v"
  shows "seg_ok t' p ns"
proof -
  have "successively (\<lambda>u v. id_of t' v = id_of t' u + dir_of t' p) ns"
    by (rule successively_sub_cong[OF seg_okD(6)[OF assms(1)]])
      (simp add: assms dir_of_def)
  then show ?thesis
    using assms by (auto simp add: seg_ok_def forward_begin_node_def forward_end_node_def
        split: if_splits)
qed

text \<open>What \<^verbatim>\<open>split_and_merge\<close> leaves alone: the parents' links, IDs and reversal bits,
  the cities and the sizes of the arenas.\<close>

definition pframe_links :: "two_level_tree \<Rightarrow> two_level_tree \<Rightarrow> bool" where
  "pframe_links t t' \<longleftrightarrow> rev_of t' = rev_of t \<and> pid_of t' = pid_of t \<and>
     pprev_of t' = pprev_of t \<and> pnext_of t' = pnext_of t \<and> n_parents t' = n_parents t \<and>
     n_nodes t' = n_nodes t \<and> n_cities t' = n_cities t \<and> origin_city t' = origin_city t \<and>
     nominal_segment_length t' = nominal_segment_length t \<and> city_of t' = city_of t"

lemma pframe_links_refl [simp]: "pframe_links t t"
  by (simp add: pframe_links_def)

lemma pframe_links_trans: "pframe_links t t' \<Longrightarrow> pframe_links t' t'' \<Longrightarrow> pframe_links t t''"
  by (simp add: pframe_links_def)

lemma successively_mid: "successively P (l @ m @ r) \<Longrightarrow> successively P m"
  by (simp add: successively_append_iff)

lemma successively_link:
  "successively P (l @ r) \<Longrightarrow> l \<noteq> [] \<Longrightarrow> r \<noteq> [] \<Longrightarrow> P (last l) (hd r)"
  by (simp add: successively_append_iff)

lemma linked_successively:
  "successively (linked t) xs \<Longrightarrow> successively (\<lambda>u v. get_next t u = v) xs"
  "successively (linked t) xs \<Longrightarrow> successively (\<lambda>u v. get_prev t v = u) xs"
  by (erule successively_mono, simp add: linked_def)+

lemma split_and_merge_forward_tmp:
  assumes inv: "tree_inv t ((p, xs1 @ xs2) # (q, ys) # rest)"
    and ne: "xs1 \<noteq> []"
    and s: "(inc \<and> xs2 \<noteq> [] \<and> hd xs2 = s) \<or> (\<not> inc \<and> last xs1 = s)"
  shows "collect_forward t (parent_of t s) (get_next t s) (if inc then [s] else []) = Some xs2"
    and "(if inc then get_prev t s else s) = last xs1"
    and "parent_of t s = p"
    and "linked t (last xs1) (hd (xs2 @ [hd ys]))"
    and "successively (linked t) (xs2 @ [hd ys])"
proof -
  note T = tree_inv_two[OF inv]
  note Sp = seg_okD[OF T(1)] and Sq = seg_okD[OF T(2)]
  define z where "z = hd ys"
  have ys: "ys = z # tl ys" using T(12) by (simp add: z_def)
  have par_xs: "\<And>v. v \<in> set (xs1 @ xs2) \<Longrightarrow> parent_of t v = p" by (rule Sp(3))
  have "s \<in> set (xs1 @ xs2)"
  proof (cases inc)
    case True
    with s have "s \<in> set xs2" by (metis hd_in_set)
    then show ?thesis by simp
  next
    case False
    with s ne have "s \<in> set xs1" by (metis last_in_set)
    then show ?thesis by simp
  qed
  then show par_s: "parent_of t s = p" by (rule par_xs)
  have "z \<in> set ys" using ys by (metis list.set_intros(1))
  then have par_z: "parent_of t z = q" by (rule Sq(3))
  have "hd (xs1 @ xs2) = hd xs1" using ne by simp
  with T(8) have "successively (linked t) (xs1 @ xs2 @ ys @ tour_of rest @ [hd xs1])" by simp
  with ys have lk: "successively (linked t) (xs1 @ xs2 @ (z # tl ys) @ tour_of rest @ [hd xs1])"
    by simp
  then have "successively (linked t) (xs1 @ (xs2 @ [z]) @ (tl ys @ tour_of rest @ [hd xs1]))"
    by simp
  then have lk2: "successively (linked t) (xs2 @ [z])" by (rule successively_mid)
  have chain: "successively (\<lambda>u v. get_next t u = v) (xs2 @ [z])"
    by (rule linked_successively(1)[OF lk2])
  have "successively (linked t) (xs1 @ (xs2 @ [z] @ tl ys @ tour_of rest @ [hd xs1]))"
    using lk by simp
  from successively_link[OF this ne] have l1: "linked t (last xs1) (hd (xs2 @ [z]))"
    by (cases xs2) simp_all
  show "collect_forward t (parent_of t s) (get_next t s) (if inc then [s] else []) = Some xs2"
  proof (cases inc)
    case True
    with s obtain post where xs2: "xs2 = s # post" by (cases xs2) auto
    from chain xs2 have "get_next t s = hd (post @ [z])"
      by (cases post) simp_all
    moreover from chain xs2 have "successively (\<lambda>u v. get_next t u = v) (post @ [z])"
      by (cases post) simp_all
    moreover have "\<forall>v\<in>set post. parent_of t v = p" using par_xs xs2 by simp
    ultimately show ?thesis
      using collect_forward_run[of t post z p "[s]"] par_z T(4) xs2 True par_s by simp
  next
    case False
    with s have "s = last xs1" by simp
    moreover have "\<forall>v\<in>set xs2. parent_of t v = p" using par_xs by simp
    ultimately show ?thesis
      using collect_forward_run[of t xs2 z p "[]"] par_z T(4) False par_s chain l1
      by (simp add: linked_def)
  qed
  show "(if inc then get_prev t s else s) = last xs1"
    using s l1 by (cases xs2) (auto simp: linked_def)
  show "linked t (last xs1) (hd (xs2 @ [hd ys]))" "successively (linked t) (xs2 @ [hd ys])"
    using l1 lk2 by (simp_all add: z_def)
qed

lemma successively_join:
  "successively P (xs @ [z]) \<Longrightarrow> successively P (z # zs) \<Longrightarrow> successively P (xs @ z # zs)"
  by (auto simp: successively_append_iff)

lemma split_and_merge_forward:
  assumes inv: "tree_inv t ((p, xs1 @ xs2) # (q, ys) # rest)"
    and ne: "xs1 \<noteq> []"
    and s: "(inc \<and> xs2 \<noteq> [] \<and> hd xs2 = s) \<or> (\<not> inc \<and> last xs1 = s)"
  shows "\<exists>t'. split_and_merge t s inc forward = Some t' \<and>
              tree_inv t' ((p, xs1) # (q, xs2 @ ys) # rest) \<and> pframe_links t t' \<and>
              (\<forall>v. v \<notin> set xs2 \<longrightarrow> id_of t' v = id_of t v)"
proof (cases "xs2 = []")
  case True
  have "split_and_merge t s inc forward = Some t"
    using split_and_merge_forward_tmp(1)[OF inv ne s] True
    by (simp add: split_and_merge_def)
  with inv True show ?thesis by simp
next
  case False
  note T = tree_inv_two[OF inv]
  note F = tree_inv_fields[OF inv]
  note Sp = seg_okD[OF T(1)] and Sq = seg_okD[OF T(2)]
  note tmp = split_and_merge_forward_tmp[OF inv ne s]
  define d :: int where "d = (if rev_of t q then 1 else - 1)"
  define q0 where "q0 = forward_begin_node t q"
  define b where "b = last xs1"
  define t2 where "t2 = set_size (set_size t q (size_of t q + int (length xs2))) p
                           (size_of t p - int (length xs2))"
  define t3 where "t3 = fst (merge_forward t2 q d q0 (rev xs2))"
  define t4 where "t4 = (if rev_of t q then set_end t3 q (hd xs2) else set_begin t3 q (hd xs2))"
  define t5 where "t5 = connect_arc_forward t4 b (hd xs2)"
  define t6 where "t6 = (if rev_of t p then set_begin t5 p b else set_end t5 p b)"
  have q0: "q0 = hd ys" using Sq(4) by (simp add: q0_def)
  have dist: "distinct (q0 # rev xs2)" using T(7) T(12) q0 by auto
  have "q0 \<in> set ys" using q0 T(12) by simp
  then have pq0: "parent_of t2 q0 = q" using Sq(3) by (simp add: t2_def)
  note M = merge_forward_spec[OF dist pq0, of d, folded t3_def]
  note P3 = pframeD[OF M(2)]
  have qf: "snd (merge_forward t2 q d q0 (rev xs2)) = hd xs2"
    using M(1) False by (simp add: last_rev)
  have pos: "size_of t p - int (length xs2) > 0" using Sp(2) ne by simp
  note defs = t6_def t5_def t4_def t3_def t2_def d_def q0_def b_def
  have res: "split_and_merge t s inc forward = Some t6"
    using tmp False T(4) T(9) pos qf[unfolded defs] P3(1)[unfolded defs]
    by (cases "rev_of t q"; cases "rev_of t p")
      (simp_all add: split_and_merge_def Let_def split_beta cassert_def defs
        forward_begin_node_def)
  have z_notin: "q0 \<notin> set xs2" using dist by simp
  have b_in: "b \<in> set xs1" using ne by (simp add: b_def)
  have b_notin: "b \<notin> set xs2" using T(7) b_in by auto
  have hd_in: "hd xs2 \<in> set xs2" using False by simp
  have nin1: "\<And>v. v \<in> set xs1 \<Longrightarrow> v \<notin> set xs2" using T(7) by auto
  have nin2: "\<And>v. v \<in> set ys \<Longrightarrow> v \<notin> set xs2" using T(7) by auto
  \<comment> \<open>the fields of the final tree\<close>
  have R: "rev_of t6 = rev_of t" "pid_of t6 = pid_of t" "pprev_of t6 = pprev_of t"
    "pnext_of t6 = pnext_of t" "n_parents t6 = n_parents t" "n_nodes t6 = n_nodes t"
    "n_cities t6 = n_cities t" "origin_city t6 = origin_city t"
    "nominal_segment_length t6 = nominal_segment_length t" "city_of t6 = city_of t"
    by (simp_all add: t6_def t5_def t4_def P3 t2_def)
  have sz: "size_of t6 p = int (length xs1)" "size_of t6 q = int (length (xs2 @ ys))"
    "\<And>r. r \<noteq> p \<Longrightarrow> r \<noteq> q \<Longrightarrow> size_of t6 r = size_of t r"
    using T(4) Sp(2) Sq(2) by (simp_all add: t6_def t5_def t4_def P3 t2_def)
  have ends: "forward_begin_node t6 p = hd xs1" "forward_end_node t6 p = last xs1"
    "forward_begin_node t6 q = hd (xs2 @ ys)" "forward_end_node t6 q = last (xs2 @ ys)"
    "\<And>r. r \<noteq> p \<Longrightarrow> r \<noteq> q \<Longrightarrow> begin_of t6 r = begin_of t r"
    "\<And>r. r \<noteq> p \<Longrightarrow> r \<noteq> q \<Longrightarrow> end_of t6 r = end_of t r"
    using T(4) T(12) Sp(4,5) Sq(4,5) ne False
    by (auto simp add: forward_begin_node_def forward_end_node_def t6_def t5_def t4_def P3 t2_def
        b_def split: if_splits)
  have par: "\<And>v. v \<notin> set xs2 \<Longrightarrow> parent_of t6 v = parent_of t v"
    "\<And>v. v \<in> set xs2 \<Longrightarrow> parent_of t6 v = q"
    using M(3) M(7) by (simp_all add: t6_def t5_def t4_def t2_def)
  have ids: "\<And>v. v \<notin> set xs2 \<Longrightarrow> id_of t6 v = id_of t v"
    using M(4) by (simp add: t6_def t5_def t4_def t2_def)
  have id6: "id_of t6 = id_of t3" by (simp add: t6_def t5_def t4_def)
  \<comment> \<open>the logical links are those of the old tree\<close>
  have nx6: "get_next t6 = (get_next t3)(b := hd xs2)"
    and pv6: "get_prev t6 = (get_prev t3)(hd xs2 := b)"
    by (simp_all add: t6_def t5_def t4_def)
  have l1: "linked t b (hd xs2)" using tmp(4) False by (simp add: b_def)
  have ch: "successively (linked t) (xs2 @ [q0])" using tmp(5) by (simp add: q0)
  have M8: "successively (\<lambda>u v. get_next t3 u = v \<and> get_prev t3 v = u \<and>
      id_of t3 u = id_of t3 v + d) (xs2 @ [q0])"
    using M(8) by simp
  have nx: "get_next t6 v = get_next t v" for v
  proof (cases "v \<in> set xs2")
    case True
    have "get_next t3 v = get_next t v"
      by (rule successively_next_eq[OF _ linked_successively(1)[OF ch] True])
        (rule successively_mono[OF M8], simp)
    with True b_notin show ?thesis by (auto simp: nx6)
  next
    case False
    then have "get_next t3 v = get_next t v" using M(5) by (simp add: t2_def)
    with l1 show ?thesis by (simp add: nx6 linked_def)
  qed
  have pv: "get_prev t6 v = get_prev t v" for v
  proof (cases "v \<in> set (tl xs2 @ [q0])")
    case True
    have x: "xs2 @ [q0] = hd xs2 # (tl xs2 @ [q0])" using \<open>xs2 \<noteq> []\<close> by simp
    have "get_prev t3 v = get_prev t v"
      by (rule successively_prev_eq[OF _ linked_successively(2)[OF ch[unfolded x]] True])
        (rule successively_mono[OF M8[unfolded x]], simp)
    moreover have "v \<noteq> hd xs2" using True dist \<open>xs2 \<noteq> []\<close>
      by (cases xs2) auto
    ultimately show ?thesis by (simp add: pv6)
  next
    case nin: False
    show ?thesis
    proof (cases "v = hd xs2")
      case True
      with l1 show ?thesis by (simp add: pv6 linked_def)
    next
      case False
      with nin \<open>xs2 \<noteq> []\<close> have "v \<notin> set (q0 # rev xs2)" by (cases xs2) auto
      then have "get_prev t3 v = get_prev t v" using M(6) by (simp add: t2_def)
      with False show ?thesis by (simp add: pv6)
    qed
  qed
  have lnk: "linked t6 = linked t" by (simp add: fun_eq_iff linked_def nx pv)
  have plk: "plinked t6 = plinked t" by (simp add: fun_eq_iff plinked_def R)
  \<comment> \<open>the segments\<close>
  have dir6: "dir_of t6 = dir_of t" by (simp add: dir_of_def fun_eq_iff R)
  have "successively (\<lambda>u v. id_of t v = id_of t u + dir_of t p) xs1"
    using Sp(6) by (simp add: successively_append_iff)
  then have "successively (\<lambda>u v. id_of t6 v = id_of t6 u + dir_of t6 p) xs1"
    by (rule successively_sub_cong) (simp add: ids dir6 nin1)
  then have okp: "seg_ok t6 p xs1"
    using ne sz(1) ends(1,2) Sp(3) by (simp add: seg_ok_def par(1) nin1)
  have "successively (\<lambda>u v. id_of t6 v = id_of t6 u + dir_of t6 q) (xs2 @ [q0])"
    by (rule successively_mono[OF M8]) (simp add: id6 dir6 dir_of_def d_def)
  moreover have "successively (\<lambda>u v. id_of t6 v = id_of t6 u + dir_of t6 q) (q0 # tl ys)"
    by (rule successively_sub_cong[of "\<lambda>u v. id_of t v = id_of t u + dir_of t q"])
      (use Sq(6) T(12) q0 in \<open>simp_all add: ids dir6 nin2\<close>)
  ultimately have "successively (\<lambda>u v. id_of t6 v = id_of t6 u + dir_of t6 q) (xs2 @ q0 # tl ys)"
    by (rule successively_join)
  then have "successively (\<lambda>u v. id_of t6 v = id_of t6 u + dir_of t6 q) (xs2 @ ys)"
    using q0 T(12) by simp
  then have okq: "seg_ok t6 q (xs2 @ ys)"
    using False sz(2) ends(3,4) Sq(3) unfolding seg_ok_def by (auto simp: par nin2)
  have okr: "seg_ok t6 (fst r) (snd r)" if "r \<in> set rest" for r
  proof -
    have np: "fst r \<noteq> p" "fst r \<noteq> q" using that T(5,6) by auto
    have nin: "\<And>v. v \<in> set (snd r) \<Longrightarrow> v \<notin> set xs2"
      using that T(7) by (auto simp: tour_of_def)
    show ?thesis
      by (rule seg_ok_cong[of t]) (use that T(3) np nin in \<open>simp_all add: sz ends R par ids\<close>)
  qed
  have "tree_inv t6 ((p, xs1) # (q, xs2 @ ys) # rest)"
    using inv okp okq okr unfolding tree_inv_def by (simp add: R lnk plk)
  moreover have "pframe_links t t6" by (simp add: pframe_links_def R)
  ultimately show ?thesis using res ids by blast
qed
lemma split_and_merge_backward_tmp:
  assumes inv: "tree_inv t ((q, ys) # (p, xs1 @ xs2) # rest)"
    and ne: "xs2 \<noteq> []"
    and s: "(inc \<and> xs1 \<noteq> [] \<and> last xs1 = s) \<or> (\<not> inc \<and> hd xs2 = s)"
  shows "collect_backward t (parent_of t s) (get_prev t s) (if inc then [s] else []) = Some (rev xs1)"
    and "(if inc then get_next t s else s) = hd xs2"
    and "parent_of t s = p"
    and "linked t (last (last ys # xs1)) (hd xs2)"
    and "successively (linked t) (last ys # xs1)"
proof -
  note T = tree_inv_two[OF inv]
  note Sq = seg_okD[OF T(1)] and Sp = seg_okD[OF T(2)]
  define z where "z = last ys"
  have ys: "ys = butlast ys @ [z]" using T(11) by (simp add: z_def)
  have par_xs: "\<And>v. v \<in> set (xs1 @ xs2) \<Longrightarrow> parent_of t v = p" by (rule Sp(3))
  have "s \<in> set (xs1 @ xs2)"
  proof (cases inc)
    case True
    with s have "s \<in> set xs1" by (metis last_in_set)
    then show ?thesis by simp
  next
    case False
    with s ne have "s \<in> set xs2" by (metis hd_in_set)
    then show ?thesis by simp
  qed
  then show par_s: "parent_of t s = p" by (rule par_xs)
  have "z \<in> set ys" using T(11) by (simp add: z_def)
  then have par_z: "parent_of t z = q" by (rule Sq(3))
  have "successively (linked t) ((butlast ys @ [z]) @ (xs1 @ xs2) @ tour_of rest @ [hd ys])"
    using T(8) ys by simp
  then have lk: "successively (linked t) (butlast ys @ (z # xs1) @ (xs2 @ tour_of rest @ [hd ys]))"
    by simp
  then have lk2: "successively (linked t) (z # xs1)" by (rule successively_mid)
  have chain: "successively (\<lambda>u v. get_prev t v = u) (z # xs1)"
    by (rule linked_successively(2)[OF lk2])
  have "successively (linked t) ((butlast ys @ z # xs1) @ (xs2 @ tour_of rest @ [hd ys]))"
    using lk by simp
  from successively_link[OF this _ _] ne have l1: "linked t (last (z # xs1)) (hd xs2)"
    by simp
  show "collect_backward t (parent_of t s) (get_prev t s) (if inc then [s] else []) = Some (rev xs1)"
  proof (cases inc)
    case True
    with s obtain pre where xs1: "xs1 = pre @ [s]" by (metis append_butlast_last_id)
    from chain xs1 have "successively (\<lambda>u v. get_prev t v = u) ((z # pre) @ [s])" by simp
    then have "get_prev t s = last (z # pre)" "successively (\<lambda>u v. get_prev t v = u) (z # pre)"
      unfolding successively_snoc by simp_all
    moreover have "\<forall>v\<in>set pre. parent_of t v = p" using par_xs xs1 by simp
    ultimately show ?thesis
      using collect_backward_run[of t z pre p "[s]"] par_z T(4) xs1 True par_s by simp
  next
    case False
    with s have "s = hd xs2" by simp
    moreover have "\<forall>v\<in>set xs1. parent_of t v = p" using par_xs by simp
    ultimately show ?thesis
      using collect_backward_run[of t z xs1 p "[]"] par_z T(4) False par_s chain l1
      by (simp add: linked_def)
  qed
  show "(if inc then get_next t s else s) = hd xs2"
    using s l1 by (auto simp: linked_def)
  show "linked t (last (last ys # xs1)) (hd xs2)" "successively (linked t) (last ys # xs1)"
    using l1 lk2 by (simp_all add: z_def)
qed

lemma split_and_merge_backward:
  assumes inv: "tree_inv t ((q, ys) # (p, xs1 @ xs2) # rest)"
    and ne: "xs2 \<noteq> []"
    and s: "(inc \<and> xs1 \<noteq> [] \<and> last xs1 = s) \<or> (\<not> inc \<and> hd xs2 = s)"
  shows "\<exists>t'. split_and_merge t s inc backward = Some t' \<and>
              tree_inv t' ((q, ys @ xs1) # (p, xs2) # rest) \<and> pframe_links t t' \<and>
              (\<forall>v. v \<notin> set xs1 \<longrightarrow> id_of t' v = id_of t v)"
proof (cases "xs1 = []")
  case True
  have "split_and_merge t s inc backward = Some t"
    using split_and_merge_backward_tmp(1)[OF inv ne s] True
    by (simp add: split_and_merge_def)
  with inv True show ?thesis by simp
next
  case False
  note T = tree_inv_two[OF inv]
  note F = tree_inv_fields[OF inv]
  note Sq = seg_okD[OF T(1)] and Sp = seg_okD[OF T(2)]
  note tmp = split_and_merge_backward_tmp[OF inv ne s]
  define d :: int where "d = (if rev_of t q then - 1 else 1)"
  define q0 where "q0 = forward_end_node t q"
  define b where "b = hd xs2"
  define t2 where "t2 = set_size (set_size t q (size_of t q + int (length xs1))) p
                           (size_of t p - int (length xs1))"
  define t3 where "t3 = fst (merge_backward t2 q d q0 xs1)"
  define t4 where "t4 = (if rev_of t q then set_begin t3 q (last xs1) else set_end t3 q (last xs1))"
  define t5 where "t5 = connect_arc_forward t4 (last xs1) b"
  define t6 where "t6 = (if rev_of t p then set_end t5 p b else set_begin t5 p b)"
  have q0: "q0 = last ys" using Sq(5) by (simp add: q0_def)
  have q0_in: "q0 \<in> set ys" using q0 T(11) by simp
  then have dist: "distinct (q0 # xs1)" using T(7) by auto
  from q0_in have pq0: "parent_of t2 q0 = q" using Sq(3) by (simp add: t2_def)
  note M = merge_backward_spec[OF dist pq0, of d, folded t3_def]
  note P3 = pframeD[OF M(2)]
  have qf: "snd (merge_backward t2 q d q0 xs1) = last xs1"
    using M(1) False by simp
  have pos: "size_of t p - int (length xs1) > 0" using Sp(2) ne by simp
  note defs = t6_def t5_def t4_def t3_def t2_def d_def q0_def b_def
  have res: "split_and_merge t s inc backward = Some t6"
    using tmp False T(4) T(10) pos qf[unfolded defs] P3(1)[unfolded defs]
    by (cases "rev_of t q"; cases "rev_of t p")
      (simp_all add: split_and_merge_def Let_def split_beta cassert_def defs
        forward_end_node_def)
  have z_notin: "q0 \<notin> set xs1" using dist by simp
  have b_in: "b \<in> set xs2" using ne by (simp add: b_def)
  have b_notin: "b \<notin> set xs1" using T(7) b_in by auto
  have nin1: "\<And>v. v \<in> set xs2 \<Longrightarrow> v \<notin> set xs1" using T(7) by auto
  have nin2: "\<And>v. v \<in> set ys \<Longrightarrow> v \<notin> set xs1" using T(7) by auto
  \<comment> \<open>the fields of the final tree\<close>
  have R: "rev_of t6 = rev_of t" "pid_of t6 = pid_of t" "pprev_of t6 = pprev_of t"
    "pnext_of t6 = pnext_of t" "n_parents t6 = n_parents t" "n_nodes t6 = n_nodes t"
    "n_cities t6 = n_cities t" "origin_city t6 = origin_city t"
    "nominal_segment_length t6 = nominal_segment_length t" "city_of t6 = city_of t"
    by (simp_all add: t6_def t5_def t4_def P3 t2_def)
  have sz: "size_of t6 p = int (length xs2)" "size_of t6 q = int (length (ys @ xs1))"
    "\<And>r. r \<noteq> p \<Longrightarrow> r \<noteq> q \<Longrightarrow> size_of t6 r = size_of t r"
    using T(4) Sp(2) Sq(2) by (simp_all add: t6_def t5_def t4_def P3 t2_def)
  have ends: "forward_begin_node t6 p = hd xs2" "forward_end_node t6 p = last xs2"
    "forward_begin_node t6 q = hd (ys @ xs1)" "forward_end_node t6 q = last (ys @ xs1)"
    "\<And>r. r \<noteq> p \<Longrightarrow> r \<noteq> q \<Longrightarrow> begin_of t6 r = begin_of t r"
    "\<And>r. r \<noteq> p \<Longrightarrow> r \<noteq> q \<Longrightarrow> end_of t6 r = end_of t r"
    using T(4) T(11) Sp(4,5) Sq(4,5) ne False
    by (auto simp add: forward_begin_node_def forward_end_node_def t6_def t5_def t4_def P3 t2_def
        b_def split: if_splits)
  have par: "\<And>v. v \<notin> set xs1 \<Longrightarrow> parent_of t6 v = parent_of t v"
    "\<And>v. v \<in> set xs1 \<Longrightarrow> parent_of t6 v = q"
    using M(3) M(7) by (simp_all add: t6_def t5_def t4_def t2_def)
  have ids: "\<And>v. v \<notin> set xs1 \<Longrightarrow> id_of t6 v = id_of t v"
    using M(4) by (simp add: t6_def t5_def t4_def t2_def)
  have id6: "id_of t6 = id_of t3" by (simp add: t6_def t5_def t4_def)
  \<comment> \<open>the logical links are those of the old tree\<close>
  have nx6: "get_next t6 = (get_next t3)(last xs1 := b)"
    and pv6: "get_prev t6 = (get_prev t3)(b := last xs1)"
    by (simp_all add: t6_def t5_def t4_def)
  have l1: "linked t (last xs1) b" using tmp(4) False by (simp add: b_def)
  have ch: "successively (linked t) (q0 # xs1)" using tmp(5) by (simp add: q0)
  have M8: "successively (\<lambda>u v. get_next t3 u = v \<and> get_prev t3 v = u \<and>
      id_of t3 v = id_of t3 u + d) (q0 # xs1)"
    using M(8) by simp
  have pv: "get_prev t6 v = get_prev t v" for v
  proof (cases "v \<in> set xs1")
    case True
    have "get_prev t3 v = get_prev t v"
      by (rule successively_prev_eq[OF _ linked_successively(2)[OF ch] True])
        (rule successively_mono[OF M8], simp)
    with True b_notin show ?thesis by (auto simp: pv6)
  next
    case False
    then have "get_prev t3 v = get_prev t v" using M(5) by (simp add: t2_def)
    with l1 show ?thesis by (simp add: pv6 linked_def)
  qed
  have nx: "get_next t6 v = get_next t v" for v
  proof (cases "v \<in> set (q0 # butlast xs1)")
    case True
    have x: "q0 # xs1 = (q0 # butlast xs1) @ [last xs1]" using \<open>xs1 \<noteq> []\<close> by simp
    have "get_next t3 v = get_next t v"
      by (rule successively_next_eq[OF _ linked_successively(1)[OF ch[unfolded x]] True])
        (rule successively_mono[OF M8[unfolded x]], simp)
    moreover have "v \<noteq> last xs1" using True dist \<open>xs1 \<noteq> []\<close>
      by (cases xs1 rule: rev_cases) auto
    ultimately show ?thesis by (simp add: nx6)
  next
    case nin: False
    show ?thesis
    proof (cases "v = last xs1")
      case True
      with l1 show ?thesis by (simp add: nx6 linked_def)
    next
      case False
      with nin \<open>xs1 \<noteq> []\<close> have "v \<notin> set (q0 # xs1)" by (cases xs1 rule: rev_cases) auto
      then have "get_next t3 v = get_next t v" using M(6) by (simp add: t2_def)
      with False show ?thesis by (simp add: nx6)
    qed
  qed
  have lnk: "linked t6 = linked t" by (simp add: fun_eq_iff linked_def nx pv)
  have plk: "plinked t6 = plinked t" by (simp add: fun_eq_iff plinked_def R)
  \<comment> \<open>the segments\<close>
  have dir6: "dir_of t6 = dir_of t" by (simp add: dir_of_def fun_eq_iff R)
  have "successively (\<lambda>u v. id_of t v = id_of t u + dir_of t p) xs2"
    using Sp(6) by (simp add: successively_append_iff)
  then have "successively (\<lambda>u v. id_of t6 v = id_of t6 u + dir_of t6 p) xs2"
    by (rule successively_sub_cong) (simp add: ids dir6 nin1)
  then have okp: "seg_ok t6 p xs2"
    using ne sz(1) ends(1,2) Sp(3) by (simp add: seg_ok_def par(1) nin1)
  have "successively (\<lambda>u v. id_of t6 v = id_of t6 u + dir_of t6 q) (q0 # xs1)"
    by (rule successively_mono[OF M8]) (simp add: id6 dir6 dir_of_def d_def)
  moreover have "successively (\<lambda>u v. id_of t6 v = id_of t6 u + dir_of t6 q) (butlast ys @ [q0])"
    by (rule successively_sub_cong[of "\<lambda>u v. id_of t v = id_of t u + dir_of t q"])
      (use Sq(6) T(11) q0 in \<open>simp_all add: ids dir6 nin2\<close>)
  ultimately have "successively (\<lambda>u v. id_of t6 v = id_of t6 u + dir_of t6 q)
      (butlast ys @ q0 # xs1)"
    by (rule successively_join[rotated])
  then have "successively (\<lambda>u v. id_of t6 v = id_of t6 u + dir_of t6 q) (ys @ xs1)"
    using q0 T(11) by (metis append.assoc append_Cons append_Nil append_butlast_last_id)
  then have okq: "seg_ok t6 q (ys @ xs1)"
    using False sz(2) ends(3,4) Sq(3) unfolding seg_ok_def by (auto simp: par nin2)
  have okr: "seg_ok t6 (fst r) (snd r)" if "r \<in> set rest" for r
  proof -
    have np: "fst r \<noteq> p" "fst r \<noteq> q" using that T(5,6) by auto
    have nin: "\<And>v. v \<in> set (snd r) \<Longrightarrow> v \<notin> set xs1"
      using that T(7) by (auto simp: tour_of_def)
    show ?thesis
      by (rule seg_ok_cong[of t]) (use that T(3) np nin in \<open>simp_all add: sz ends R par ids\<close>)
  qed
  have "tree_inv t6 ((q, ys @ xs1) # (p, xs2) # rest)"
    using inv okp okq okr unfolding tree_inv_def by (simp add: R lnk plk)
  moreover have "pframe_links t t6" by (simp add: pframe_links_def R)
  ultimately show ?thesis using res ids by blast
qed

section \<open>The tour encoded by a tree\<close>

lemma Suc_mod_less: "i < n \<Longrightarrow> Suc i mod n < (n::nat)"
  by (rule mod_less_divisor) simp

lemma pred_mod_less: "i < n \<Longrightarrow> (i + (n - 1)) mod n < (n::nat)"
  by (rule mod_less_divisor) simp

lemma Suc_pred_mod: "i < n \<Longrightarrow> Suc ((i + (n - 1)) mod n) mod n = (i::nat)"
proof (cases i)
  case 0
  assume "i < n"
  with 0 have "(n - 1) mod n = n - 1" "Suc (n - 1) = n" by simp_all
  with 0 show ?thesis by simp
next
  case (Suc j)
  assume "i < n"
  with Suc have "i + (n - 1) = j + n" by simp
  then have "(i + (n - 1)) mod n = j mod n" by simp
  also have "\<dots> = j" using Suc \<open>i < n\<close> by simp
  finally show ?thesis using Suc \<open>i < n\<close> by simp
qed

lemma cyclic_nth:
  assumes "cyclic R xs" "i < length xs"
  shows "R (xs ! i) (xs ! (Suc i mod length xs))"
proof -
  from assms have s: "successively R (xs @ [hd xs])" by (simp add: cyclic_def)
  have "Suc i < length (xs @ [hd xs])" using assms by simp
  from successively_nth[OF s this] have "R (xs ! i) ((xs @ [hd xs]) ! Suc i)"
    using assms by (simp add: nth_append)
  moreover have "(xs @ [hd xs]) ! Suc i = xs ! (Suc i mod length xs)"
  proof (cases "Suc i < length xs")
    case True
    then show ?thesis by (simp add: nth_append)
  next
    case False
    with assms have "Suc i = length xs" by simp
    then show ?thesis using assms by (cases xs) (simp_all add: nth_append)
  qed
  ultimately show ?thesis by simp
qed

lemma tree_inv_length:
  assumes "tree_inv t segs"
  shows "length (tour_of segs) = n_cities t"
proof -
  note F = tree_inv_fields[OF assms]
  have "length (tour_of segs) = card (set (tour_of segs))"
    by (rule distinct_card[OF F(6), symmetric])
  then show ?thesis by (simp add: F(4))
qed

lemma tree_inv_links:
  assumes "tree_inv t segs" "i < length (tour_of segs)"
  shows "get_next t (tour_of segs ! i) = tour_of segs ! (Suc i mod length (tour_of segs))"
    and "get_prev t (tour_of segs ! (Suc i mod length (tour_of segs))) = tour_of segs ! i"
  using cyclic_nth[of "linked t" "tour_of segs" i] assms
  by (simp_all add: tree_inv_def linked_def)

lemma walk_tour_forward:
  assumes "tree_inv t segs" "i < length (tour_of segs)"
  shows "walk_tour t forward (tour_of segs ! i) k =
         map (\<lambda>j. int (tour_of segs ! ((i + j) mod length (tour_of segs)))) [0..<k]"
  using assms(2)
proof (induction k arbitrary: i)
  case 0
  then show ?case by simp
next
  case (Suc k)
  let ?T = "tour_of segs" and ?n = "length (tour_of segs)"
  have c: "city_of t (?T ! i) = int (?T ! i)"
    by (rule tree_inv_fields(5)[OF assms(1)]) (use Suc.prems in simp)
  have n: "get_next t (?T ! i) = ?T ! (Suc i mod ?n)"
    by (rule tree_inv_links(1)[OF assms(1) Suc.prems])
  have "Suc i mod ?n < ?n" using Suc.prems by (rule Suc_mod_less)
  from Suc.IH[OF this]
  have "walk_tour t forward (?T ! (Suc i mod ?n)) k =
        map (\<lambda>j. int (?T ! ((Suc i + j) mod ?n))) [0..<k]"
    by (simp add: mod_add_left_eq)
  then have "walk_tour t forward (?T ! i) (Suc k) =
        int (?T ! i) # map (\<lambda>j. int (?T ! ((i + Suc j) mod ?n))) [0..<k]"
    using c n by simp
  also have "\<dots> = map (\<lambda>j. int (?T ! ((i + j) mod ?n))) (0 # map Suc [0..<k])"
    using Suc.prems by (simp add: comp_def)
  also have "0 # map Suc [0..<k] = [0..<Suc k]"
    by (simp add: upt_conv_Cons map_Suc_upt del: upt_Suc)
  finally show ?case .
qed

lemma walk_tour_full:
  assumes "tree_inv t segs" "tour_of segs = l @ v # r"
  shows "walk_tour t forward v (n_cities t) = map int (v # r @ l)"
proof -
  let ?T = "tour_of segs"
  have len: "length ?T = n_cities t" by (rule tree_inv_length[OF assms(1)])
  have i: "length l < length ?T" "?T ! length l = v" using assms(2) by simp_all
  have "walk_tour t forward v (n_cities t) =
        map (\<lambda>j. int (?T ! ((length l + j) mod length ?T))) [0..<length ?T]"
    using walk_tour_forward[OF assms(1) i(1), of "n_cities t"] i(2) len by simp
  also have "\<dots> = map int (rotate (length l) ?T)"
    by (rule nth_equalityI) (simp_all add: nth_rotate)
  also have "rotate (length l) ?T = v # r @ l"
    using assms(2) by (simp add: rotate_append)
  finally show ?thesis .
qed

lemma get_raw_tour_forward:
  assumes "tree_inv t segs" "tour_of segs = l @ v # r"
  shows "get_raw_tour t (int v) forward = Some (map int (v # r @ l))"
proof -
  have "v \<in> set (tour_of segs)" using assms(2) by simp
  then have "origin_city t \<le> v" "v < origin_city t + n_cities t"
    using assms(1) by (simp_all add: tree_inv_def)
  moreover have "n_nodes t = n_cities t + origin_city t" using assms(1) by (simp add: tree_inv_def)
  ultimately show ?thesis
    using walk_tour_full[OF assms]
    by (simp add: get_raw_tour_def get_node_def cassert_def)
qed

text \<open>Two trees whose logical links and cities agree on a set closed under the links are
  walked alike, in both directions.\<close>

lemma walk_tour_cong:
  assumes "\<And>u. u \<in> S \<Longrightarrow> get_next t' u = get_next t u \<and> get_prev t' u = get_prev t u \<and>
                 city_of t' u = city_of t u \<and> get_next t u \<in> S \<and> get_prev t u \<in> S"
    and "v \<in> S"
  shows "walk_tour t' d v k = walk_tour t d v k"
  using assms(2)
proof (induction k arbitrary: v)
  case 0
  then show ?case by simp
next
  case (Suc k)
  then show ?case using assms(1)[of v] by (cases d) simp_all
qed

lemma tree_inv_closed:
  assumes "tree_inv t segs" "u \<in> set (tour_of segs)"
  shows "get_next t u \<in> set (tour_of segs)" "get_prev t u \<in> set (tour_of segs)"
proof -
  let ?T = "tour_of segs" and ?n = "length (tour_of segs)"
  from assms(2) obtain i where i: "i < ?n" "?T ! i = u" by (auto simp: in_set_conv_nth)
  from i(1) have "Suc i mod ?n < ?n" by (rule Suc_mod_less)
  then show "get_next t u \<in> set ?T"
    using tree_inv_links(1)[OF assms(1) i(1)] i(2) by (metis nth_mem)
  have "(i + (?n - 1)) mod ?n < ?n" using i(1) by (rule pred_mod_less)
  moreover have "Suc ((i + (?n - 1)) mod ?n) mod ?n = i"
    using i(1) by (rule Suc_pred_mod)
  ultimately show "get_prev t u \<in> set ?T"
    using tree_inv_links(2)[OF assms(1), of "(i + (?n - 1)) mod ?n"] i(2) by (metis nth_mem)
qed

text \<open>The cyclic tour determines the logical links.\<close>

lemma tree_inv_same_links:
  assumes "tree_inv t segs" "tree_inv t' segs'" "tour_of segs' = rotate k (tour_of segs)"
    and "u \<in> set (tour_of segs)"
  shows "get_next t' u = get_next t u" "get_prev t' u = get_prev t u"
proof -
  let ?T = "tour_of segs" and ?n = "length (tour_of segs)"
  have "cyclic (linked t') (rotate k ?T)" using assms(2,3) by (simp add: tree_inv_def)
  then have "cyclic (linked t') (rotate (?n - k mod ?n) (rotate k ?T))" by (rule cyclic_rotate)
  moreover have "rotate (?n - k mod ?n) (rotate k ?T) = ?T"
  proof (cases "?T = []")
    case True
    then show ?thesis by simp
  next
    case False
    then have "k mod ?n < ?n" by simp
    moreover have "k = k mod ?n + ?n * (k div ?n)" by simp
    ultimately have "?n - k mod ?n + k = ?n + ?n * (k div ?n)" by arith
    then have "(?n - k mod ?n + k) mod ?n = 0" by simp
    then show ?thesis by (simp add: rotate_rotate)
  qed
  ultimately have c': "cyclic (linked t') ?T" by simp
  have c: "cyclic (linked t) ?T" using assms(1) by (simp add: tree_inv_def)
  from assms(4) obtain i where i: "i < ?n" "?T ! i = u" by (auto simp: in_set_conv_nth)
  show "get_next t' u = get_next t u"
    using cyclic_nth[OF c i(1)] cyclic_nth[OF c' i(1)] i(2) by (simp add: linked_def)
  have j: "(i + (?n - 1)) mod ?n < ?n" "Suc ((i + (?n - 1)) mod ?n) mod ?n = i"
    using i(1) by (rule pred_mod_less, rule Suc_pred_mod)
  show "get_prev t' u = get_prev t u"
    using cyclic_nth[OF c j(1)] cyclic_nth[OF c' j(1)] i(2) j(2) by (simp add: linked_def)
qed


section \<open>split\_and\_merge keeps the tour\<close>

lemma tree_inv_rest_nonempty:
  assumes "tree_inv t (x # rest)"
  shows "rest \<noteq> []"
  using assms by (auto simp: tree_inv_def)

lemma tree_inv_first2:
  assumes "tree_inv t segs" "v \<in> set (tour_of segs)"
  obtains p pre post q ys rest where "tree_inv t ((p, pre @ v # post) # (q, ys) # rest)"
proof -
  from assms obtain p pre post rest0 where a: "tree_inv t ((p, pre @ v # post) # rest0)"
    by (rule tree_inv_first)
  then have "rest0 \<noteq> []" by (rule tree_inv_rest_nonempty)
  then obtain q ys rest where "rest0 = (q, ys) # rest" by (cases rest0) auto
  with a show thesis using that by simp
qed

lemma tree_inv_second:
  assumes "tree_inv t segs" "v \<in> set (tour_of segs)"
  obtains p pre post q ys rest where "tree_inv t ((q, ys) # (p, pre @ v # post) # rest)"
proof -
  from assms obtain p pre post rest0 where a: "tree_inv t ((p, pre @ v # post) # rest0)"
    by (rule tree_inv_first)
  then have "rest0 \<noteq> []" by (rule tree_inv_rest_nonempty)
  then obtain q ys rest where r: "rest0 = rest @ [(q, ys)]"
    by (cases rest0 rule: rev_cases) auto
  from a have "tree_inv t (((p, pre @ v # post) # rest) @ [(q, ys)])" by (simp add: r)
  then have "tree_inv t ([(q, ys)] @ ((p, pre @ v # post) # rest))"
    by (rule tree_inv_split_rotate)
  then show thesis using that by simp
qed

lemma get_raw_tour_alt:
  "get_raw_tour t c d =
     (if int (origin_city t) \<le> (if c < 0 then int (origin_city t) else c) \<and>
         (if c < 0 then int (origin_city t) else c) < int (n_nodes t) \<and>
         (if c < 0 then int (origin_city t) else c) < int (origin_city t) + int (n_cities t)
      then Some (walk_tour t d (nat (if c < 0 then int (origin_city t) else c)) (n_cities t))
      else None)"
  by (simp add: get_raw_tour_def get_node_def cassert_def Let_def)

lemma get_raw_tour_cong:
  assumes "tree_inv t segs" "pframe_links t t'"
    and "\<And>u. u \<in> set (tour_of segs) \<Longrightarrow> get_next t' u = get_next t u \<and> get_prev t' u = get_prev t u"
  shows "get_raw_tour t' c d = get_raw_tour t c d"
proof -
  have R: "n_cities t' = n_cities t" "origin_city t' = origin_city t" "n_nodes t' = n_nodes t"
    "city_of t' = city_of t"
    using assms(2) by (simp_all add: pframe_links_def)
  have w: "walk_tour t' d v k = walk_tour t d v k" if "v \<in> set (tour_of segs)" for v k
    by (rule walk_tour_cong[where S = "set (tour_of segs)"])
      (use that assms(3) tree_inv_closed[OF assms(1)] R in auto)
  have inT: "v \<in> set (tour_of segs) \<longleftrightarrow> origin_city t \<le> v \<and> v < origin_city t + n_cities t"
    for v using tree_inv_fields(4)[OF assms(1)] by auto
  define c' where "c' = (if c < 0 then int (origin_city t) else c)"
  show ?thesis
  proof (cases "int (origin_city t) \<le> c' \<and> c' < int (origin_city t) + int (n_cities t)")
    case True
    then have "nat c' \<in> set (tour_of segs)" by (simp add: inT) linarith
    from w[OF this] show ?thesis
      unfolding get_raw_tour_alt R c'_def[symmetric] by simp
  next
    case False
    then show ?thesis
      unfolding get_raw_tour_alt R c'_def[symmetric] by auto
  qed
qed

lemma split_and_merge_valid:
  assumes inv: "tree_inv t segs" and s: "s \<in> set (tour_of segs)"
    and keep: "\<not> (include_self \<and> s = (if direction = forward
                  then forward_begin_node t (parent_of t s)
                  else forward_end_node t (parent_of t s)))"
  shows "\<exists>t' segs'. split_and_merge t s include_self direction = Some t' \<and>
           tree_inv t' segs' \<and> pframe_links t t' \<and>
           (\<forall>u\<in>set (tour_of segs). get_next t' u = get_next t u \<and> get_prev t' u = get_prev t u)"
proof (cases direction)
  case forward
  from inv s obtain p pre post q ys rest
    where a: "tree_inv t ((p, pre @ s # post) # (q, ys) # rest)"
    by (rule tree_inv_first2)
  note T = tree_inv_two[OF a]
  have ps: "parent_of t s = p" using seg_okD(3)[OF T(1)] by simp
  have set_eq: "set (tour_of segs) = set (tour_of ((p, pre @ s # post) # (q, ys) # rest))"
    using tree_inv_fields(4)[OF inv] tree_inv_fields(4)[OF a] by simp
  show ?thesis
  proof (cases include_self)
    case True
    with keep forward ps seg_okD(4)[OF T(1)] have "pre \<noteq> []" by (cases pre) auto
    then obtain t' where t': "split_and_merge t s include_self forward = Some t'"
      "tree_inv t' ((p, pre) # (q, (s # post) @ ys) # rest)" "pframe_links t t'"
      using split_and_merge_forward[of t p pre "s # post" q ys rest include_self s] a True
      by auto
    have "\<forall>u\<in>set (tour_of segs). get_next t' u = get_next t u \<and> get_prev t' u = get_prev t u"
      using tree_inv_same_links[OF a t'(2), of 0] set_eq by simp
    with t' forward show ?thesis by blast
  next
    case False
    obtain t' where t': "split_and_merge t s include_self forward = Some t'"
      "tree_inv t' ((p, pre @ [s]) # (q, post @ ys) # rest)" "pframe_links t t'"
      using split_and_merge_forward[of t p "pre @ [s]" post q ys rest include_self s] a False
      by auto
    have "\<forall>u\<in>set (tour_of segs). get_next t' u = get_next t u \<and> get_prev t' u = get_prev t u"
      using tree_inv_same_links[OF a t'(2), of 0] set_eq by simp
    with t' forward show ?thesis by blast
  qed
next
  case backward
  from inv s obtain p pre post q ys rest
    where a: "tree_inv t ((q, ys) # (p, pre @ s # post) # rest)"
    by (rule tree_inv_second)
  note T = tree_inv_two[OF a]
  have ps: "parent_of t s = p" using seg_okD(3)[OF T(2)] by simp
  have set_eq: "set (tour_of segs) = set (tour_of ((q, ys) # (p, pre @ s # post) # rest))"
    using tree_inv_fields(4)[OF inv] tree_inv_fields(4)[OF a] by simp
  show ?thesis
  proof (cases include_self)
    case True
    with keep backward ps seg_okD(5)[OF T(2)] have "post \<noteq> []" by (cases post) auto
    then obtain t' where t': "split_and_merge t s include_self backward = Some t'"
      "tree_inv t' ((q, ys @ (pre @ [s])) # (p, post) # rest)" "pframe_links t t'"
      using split_and_merge_backward[of t q ys p "pre @ [s]" post rest include_self s] a True
      by auto
    have "\<forall>u\<in>set (tour_of segs). get_next t' u = get_next t u \<and> get_prev t' u = get_prev t u"
      using tree_inv_same_links[OF a t'(2), of 0] set_eq by simp
    with t' backward show ?thesis by blast
  next
    case False
    obtain t' where t': "split_and_merge t s include_self backward = Some t'"
      "tree_inv t' ((q, ys @ pre) # (p, s # post) # rest)" "pframe_links t t'"
      using split_and_merge_backward[of t q ys p pre "s # post" rest include_self s] a False
      by auto
    have "\<forall>u\<in>set (tour_of segs). get_next t' u = get_next t u \<and> get_prev t' u = get_prev t u"
      using tree_inv_same_links[OF a t'(2), of 0] set_eq by simp
    with t' backward show ?thesis by blast
  qed
qed

section \<open>set\_raw\_tour establishes the invariant\<close>

subsection \<open>Loops that cannot fail\<close>

lemma fold_opt_total:
  assumes "\<And>x s. x \<in> set xs \<Longrightarrow> C s \<Longrightarrow> f x s = Some (g x s) \<and> C (g x s)" "C s"
  shows "fold_opt f xs s = Some (fold g xs s) \<and> C (fold g xs s)"
  using assms
proof (induction xs arbitrary: s)
  case Nil
  then show ?case by simp
next
  case (Cons x xs)
  have 1: "f x s = Some (g x s)" "C (g x s)" using Cons.prems(1)[of x s] Cons.prems(2) by simp_all
  have "fold_opt f xs (g x s) = Some (fold g xs (g x s)) \<and> C (fold g xs (g x s))"
    by (rule Cons.IH) (use Cons.prems(1) 1(2) in auto)
  with 1 show ?case by simp
qed

lemma fold_point_updates:
  assumes "distinct (map key xs)"
  shows "x \<in> set xs \<Longrightarrow> fold (\<lambda>x f. f(key x := val x)) xs f0 (key x) = val x"
    and "v \<notin> key ` set xs \<Longrightarrow> fold (\<lambda>x f. f(key x := val x)) xs f0 v = f0 v"
  using assms
proof (induction xs arbitrary: x rule: rev_induct)
  case Nil
  { case 1 then show ?case by simp
  next case 2 then show ?case by simp }
next
  case (snoc y ys)
  { case 1 
    then show ?case using snoc.IH(1)[of x] by (cases "x = y") (auto simp: image_iff)
  next
    case 2 
    then show ?case using snoc.IH(2) by auto }
qed

subsection \<open>The positions of the segments in the input\<close>

definition seg_begin :: "two_level_tree \<Rightarrow> nat \<Rightarrow> nat" where
  "seg_begin t k = k * (n_cities t div n_parents t)"

definition seg_end :: "two_level_tree \<Rightarrow> nat \<Rightarrow> nat" where
  "seg_end t k = (if k = n_parents t - 1 then n_cities t
                  else seg_begin t k + n_cities t div n_parents t)"

definition initial_segs :: "two_level_tree \<Rightarrow> int list \<Rightarrow> (nat \<times> nat list) list" where
  "initial_segs t order =
     map (\<lambda>k. (k, map nat (take (seg_end t k - seg_begin t k) (drop (seg_begin t k) order))))
       [0..<n_parents t]"

lemma concat_pieces:
  assumes "b 0 = 0" "\<And>k. k < m \<Longrightarrow> b k \<le> b (Suc k)"
  shows "concat (map (\<lambda>k. take (b (Suc k) - b k) (drop (b k) xs)) [0..<m]) = take (b m) xs"
  using assms(2)
proof (induction m)
  case 0
  then show ?case by (simp add: assms(1))
next
  case (Suc m)
  have "take (b (Suc m)) xs = take (b m + (b (Suc m) - b m)) xs" using Suc.prems[of m] by simp
  also have "\<dots> = take (b m) xs @ take (b (Suc m) - b m) (drop (b m) xs)" by (rule take_add)
  finally show ?case using Suc by simp
qed

subsection \<open>The two loop bodies as plain updates\<close>

definition tour_input :: "two_level_tree \<Rightarrow> int list \<Rightarrow> bool" where
  "tour_input t order \<longleftrightarrow>
     2 \<le> n_parents t \<and> n_parents t \<le> n_cities t \<and>
     n_nodes t = n_cities t + origin_city t \<and> length order = n_cities t \<and>
     distinct order \<and> set order = int ` {origin_city t ..< origin_city t + n_cities t}"

definition written_node :: "int list \<Rightarrow> nat \<Rightarrow> nat \<Rightarrow> nat \<Rightarrow> node" where
  "written_node order par i_begin i =
     \<lparr>node_id = int i - int i_begin, city = order ! i,
      node_prev = nat (order ! ((i + (length order - 1)) mod length order)),
      node_next = nat (order ! (Suc i mod length order)), parent = par\<rparr>"

definition node_step :: "int list \<Rightarrow> nat \<Rightarrow> nat \<Rightarrow> nat \<Rightarrow> two_level_tree \<Rightarrow> two_level_tree" where
  "node_step order par i_begin i t =
     t\<lparr>nodes := (nodes t)(nat (order ! i) := written_node order par i_begin i)\<rparr>"

definition written_parent :: "two_level_tree \<Rightarrow> int list \<Rightarrow> nat \<Rightarrow> parent_node" where
  "written_parent t order k =
     \<lparr>reverse = False, seg_size = int (seg_end t k) - int (seg_begin t k), parent_id = int k,
      parent_prev = (k + (n_parents t - 1)) mod n_parents t,
      parent_next = Suc k mod n_parents t,
      segment_begin_node = nat (order ! seg_begin t k),
      segment_end_node = nat (order ! (seg_end t k - 1))\<rparr>"

definition segment_step :: "int list \<Rightarrow> nat \<Rightarrow> two_level_tree \<Rightarrow> two_level_tree" where
  "segment_step order k t =
     fold (node_step order k (seg_begin t k)) [seg_begin t k ..< seg_end t k]
       (t\<lparr>parent_nodes := (parent_nodes t)(k := written_parent t order k)\<rparr>)"

lemma node_all_fields:
  "(r::node)\<lparr>city := c, parent := p, node_prev := a, node_next := b, node_id := i\<rparr> =
     \<lparr>node_id = i, city = c, node_prev = a, node_next = b, parent = p\<rparr>"
  by (cases r) simp

lemma parent_node_all_fields:
  "(r::parent_node)\<lparr>parent_id := i, parent_prev := a, parent_next := b, reverse := rv,
      segment_begin_node := sb, segment_end_node := se, seg_size := sz\<rparr> =
     \<lparr>reverse = rv, seg_size = sz, parent_id = i, parent_prev = a, parent_next = b,
      segment_begin_node = sb, segment_end_node = se\<rparr>"
  by (cases r) simp

lemma get_node_frame [simp]:
  "get_node (set_id t v i) = get_node t"
  "get_node (set_city t v i) = get_node t"
  "get_node (set_prev t v w) = get_node t"
  "get_node (set_next t v w) = get_node t"
  "get_node (set_parent t v p) = get_node t"
  "is_city_valid (set_id t v i) = is_city_valid t"
  "is_city_valid (set_city t v i) = is_city_valid t"
  "is_city_valid (set_prev t v w) = is_city_valid t"
  "is_city_valid (set_next t v w) = is_city_valid t"
  "is_city_valid (set_parent t v p) = is_city_valid t"
  by (simp_all add: fun_eq_iff get_node_def is_city_valid_def)

lemma tour_input_valid:
  assumes "tour_input t order" "i < n_cities t"
  shows "is_city_valid t (order ! i)" "get_node t (order ! i) = Some (nat (order ! i))"
proof -
  have "i < length order" using assms by (simp add: tour_input_def)
  then have "order ! i \<in> set order" by (rule nth_mem)
  then have "order ! i \<in> int ` {origin_city t ..< origin_city t + n_cities t}"
    using assms(1) by (simp add: tour_input_def)
  then show "is_city_valid t (order ! i)" "get_node t (order ! i) = Some (nat (order ! i))"
    by (auto simp: is_city_valid_def get_node_def cassert_def)
qed

lemma set_raw_tour_node_eq:
  assumes "tour_input t order" "i < n_cities t"
  shows "set_raw_tour_node order par i_begin i t = Some (node_step order par i_begin i t)"
proof -
  let ?n = "n_cities t"
  have len: "length order = ?n" "order \<noteq> []" using assms by (auto simp: tour_input_def)
  have v: "\<And>j. j < ?n \<Longrightarrow> get_node t (order ! j) = Some (nat (order ! j))"
    "is_city_valid t (order ! i)"
    using tour_input_valid[OF assms(1)] assms(2) by simp_all
  have pv: "(if i = 0 then last order else order ! (i - 1)) = order ! ((i + (?n - 1)) mod ?n)"
  proof (cases i)
    case 0
    then show ?thesis using len assms(2) by (simp add: last_conv_nth)
  next
    case (Suc j)
    then have "(i + (?n - 1)) mod ?n = (j + ?n) mod ?n" using assms(2) by simp
    then show ?thesis using Suc assms(2) by simp
  qed
  have nx: "(if i + 1 = ?n then hd order else order ! (i + 1)) = order ! (Suc i mod ?n)"
    using len assms(2) by (auto simp: hd_conv_nth)
  have nn: "nat (int i - 1) = i - 1" "nat (int i + 1) = Suc i" by simp_all
  have j1: "(i + (?n - 1)) mod ?n < ?n" "Suc i mod ?n < ?n"
    using assms(2) by (simp_all add: pred_mod_less Suc_mod_less)
  have "set_raw_tour_node order par i_begin i t =
        Some (set_id (set_next (set_prev (set_parent (set_city t (nat (order ! i)) (order ! i))
           (nat (order ! i)) par) (nat (order ! i)) (nat (order ! ((i + (?n - 1)) mod ?n))))
           (nat (order ! i)) (nat (order ! (Suc i mod ?n)))) (nat (order ! i)) (int i - int i_begin))"
  proof (cases "i = 0"; cases "i + 1 = ?n")
  qed (use assms(2) len v j1 pv nx nn in
      \<open>simp_all add: set_raw_tour_node_def read_at_def cassert_def Let_def\<close>)
  also have "\<dots> = Some (node_step order par i_begin i t)"
    by (simp add: node_step_def written_node_def set_id_def set_next_def set_prev_def
        set_parent_def set_city_def len node_all_fields)
  finally show ?thesis .
qed

lemma seg_bounds:
  assumes "tour_input t order" "k < n_parents t"
  shows "seg_begin t k < seg_end t k" "seg_end t k \<le> n_cities t"
    "Suc k < n_parents t \<Longrightarrow> seg_end t k = seg_begin t (Suc k)"
    "Suc k = n_parents t \<Longrightarrow> seg_end t k = n_cities t"
proof -
  let ?P = "n_parents t" and ?n = "n_cities t"
  let ?L = "?n div ?P"
  have P: "2 \<le> ?P" "?P \<le> ?n" using assms(1) by (simp_all add: tour_input_def)
  then have L: "1 \<le> ?L" by (simp add: div_greater_zero_iff Suc_le_eq)
  have PL: "?P * ?L \<le> ?n" by simp
  have "Suc k * ?L \<le> ?P * ?L" using assms(2) by (intro mult_le_mono1) simp
  then have a: "Suc k * ?L \<le> ?n" by (rule order_trans[OF _ PL])
  have "k * ?L < Suc k * ?L" using L by simp
  then have b: "k * ?L < ?n" by (rule less_le_trans[OF _ a])
  show "seg_begin t k < seg_end t k" using L b by (auto simp add: seg_begin_def seg_end_def)
  show "seg_end t k \<le> ?n" using a by (simp add: seg_begin_def seg_end_def)
  show "Suc k < ?P \<Longrightarrow> seg_end t k = seg_begin t (Suc k)"
    by (auto simp add: seg_begin_def seg_end_def)
  show "Suc k = ?P \<Longrightarrow> seg_end t k = ?n"
    by (auto simp add: seg_end_def)
qed

lemma node_step_fields [simp]:
  "parent_nodes (node_step order par ib i t) = parent_nodes t"
  "n_parents (node_step order par ib i t) = n_parents t"
  "n_nodes (node_step order par ib i t) = n_nodes t"
  "n_cities (node_step order par ib i t) = n_cities t"
  "origin_city (node_step order par ib i t) = origin_city t"
  "nominal_segment_length (node_step order par ib i t) = nominal_segment_length t"
  "nodes (node_step order par ib i t) = (nodes t)(nat (order ! i) := written_node order par ib i)"
  by (simp_all add: node_step_def)

definition same_shape :: "two_level_tree \<Rightarrow> two_level_tree \<Rightarrow> bool" where
  "same_shape t t' \<longleftrightarrow> n_parents t' = n_parents t \<and> n_nodes t' = n_nodes t \<and>
     n_cities t' = n_cities t \<and> origin_city t' = origin_city t \<and>
     nominal_segment_length t' = nominal_segment_length t"

lemma same_shapeD:
  assumes "same_shape t t'"
  shows "n_parents t' = n_parents t" "n_nodes t' = n_nodes t" "n_cities t' = n_cities t"
    "origin_city t' = origin_city t" "nominal_segment_length t' = nominal_segment_length t"
    "tour_input t' order = tour_input t order" "seg_begin t' = seg_begin t" "seg_end t' = seg_end t"
    "written_parent t' = written_parent t"
  using assms
  by (simp_all add: same_shape_def tour_input_def seg_begin_def seg_end_def fun_eq_iff
      written_parent_def)

lemma node_loop:
  assumes "tour_input t order" "i1 \<le> n_cities t"
  shows "fold_opt (set_raw_tour_node order par ib) [i0..<i1] t =
           Some (fold (node_step order par ib) [i0..<i1] t)"
    and "same_shape t (fold (node_step order par ib) [i0..<i1] t)"
    and "parent_nodes (fold (node_step order par ib) [i0..<i1] t) = parent_nodes t"
    and "nodes (fold (node_step order par ib) [i0..<i1] t) =
           fold (\<lambda>i f. f(nat (order ! i) := written_node order par ib i)) [i0..<i1] (nodes t)"
proof -
  let ?C = "\<lambda>s. same_shape t s"
  have "fold_opt (set_raw_tour_node order par ib) [i0..<i1] t =
          Some (fold (node_step order par ib) [i0..<i1] t) \<and>
        ?C (fold (node_step order par ib) [i0..<i1] t)"
  proof (rule fold_opt_total[where C = ?C])
    fix x s assume x: "x \<in> set [i0..<i1]" and s: "same_shape t s"
    have "tour_input s order" "x < n_cities s"
      using x assms same_shapeD[OF s] by simp_all
    then have "set_raw_tour_node order par ib x s = Some (node_step order par ib x s)"
      by (rule set_raw_tour_node_eq)
    moreover have "same_shape t (node_step order par ib x s)"
      using s by (simp add: same_shape_def)
    ultimately show "set_raw_tour_node order par ib x s = Some (node_step order par ib x s) \<and>
         same_shape t (node_step order par ib x s)" by simp
  qed (simp add: same_shape_def)
  then show "fold_opt (set_raw_tour_node order par ib) [i0..<i1] t =
           Some (fold (node_step order par ib) [i0..<i1] t)"
    and "same_shape t (fold (node_step order par ib) [i0..<i1] t)" by simp_all
  show "parent_nodes (fold (node_step order par ib) [i0..<i1] t) = parent_nodes t"
    by (induction i1) simp_all
  show "nodes (fold (node_step order par ib) [i0..<i1] t) =
           fold (\<lambda>i f. f(nat (order ! i) := written_node order par ib i)) [i0..<i1] (nodes t)"
    by (induction i1) simp_all
qed

lemma set_raw_tour_segment_eq:
  assumes "tour_input t order" "k < n_parents t"
  shows "set_raw_tour_segment order k t = Some (segment_step order k t)"
proof -
  note B = seg_bounds[OF assms]
  define t1 where "t1 = t\<lparr>parent_nodes := (parent_nodes t)(k := written_parent t order k)\<rparr>"
  have sh: "same_shape t t1" by (simp add: same_shape_def t1_def)
  have ti: "tour_input t1 order" using assms(1) same_shapeD(6)[OF sh] by simp
  have len: "length order = n_cities t" using assms(1) by (simp add: tour_input_def)
  have pv: "(if 0 < k then k - 1 else n_parents t - 1) = (k + (n_parents t - 1)) mod n_parents t"
  proof (cases k)
    case 0
    then show ?thesis using assms(2) by simp
  next
    case (Suc j)
    then have "(k + (n_parents t - 1)) mod n_parents t = (j + n_parents t) mod n_parents t"
      using assms(2) by simp
    then show ?thesis using Suc assms(2) by simp
  qed
  have nx: "(if k + 1 < n_parents t then k + 1 else 0) = Suc k mod n_parents t"
    using assms(2) by (auto simp: mod_Suc)
  define ib where "ib = seg_begin t k"
  define ie where "ie = seg_end t k"
  have e: "set_size (set_end (set_begin (set_rev (set_pnext (set_pprev (set_pid t k (int k)) k
             ((k + (n_parents t - Suc 0)) mod n_parents t)) k (Suc k mod n_parents t)) k False) k
             (nat (order ! ib))) k (nat (order ! (ie - Suc 0)))) k (int ie - int ib) = t1"
    by (simp add: t1_def written_parent_def set_size_def set_end_def set_begin_def set_rev_def
        set_pnext_def set_pprev_def set_pid_def parent_node_all_fields ib_def ie_def)
  have rd: "read_at order (int ib) = Some (order ! ib)"
    "read_at order (int ie - 1) = Some (order ! (ie - 1))"
    using B(1,2) len by (auto simp: read_at_def nat_diff_distrib ib_def ie_def)
  have ibe: "k * (n_cities t div n_parents t) = ib"
    "(if k = n_parents t - 1 then n_cities t else ib + n_cities t div n_parents t) = ie"
    by (simp_all add: ib_def ie_def seg_begin_def seg_end_def)
  have "set_raw_tour_segment order k t =
          fold_opt (set_raw_tour_node order k ib) [ib ..< ie] t1"
    unfolding set_raw_tour_segment_def Let_def n_segments_def tail_parent_node_def
      head_parent_node_def read_other_pid read_other_pprev read_other_pnext read_other_rev
      read_other_begin read_other_end read_other_size ibe pv nx
    by (simp add: rd e)
  then have "set_raw_tour_segment order k t =
          fold_opt (set_raw_tour_node order k (seg_begin t k)) [seg_begin t k ..< seg_end t k] t1"
    by (simp add: ib_def ie_def)
  also have "\<dots> = Some (fold (node_step order k (seg_begin t k)) [seg_begin t k ..< seg_end t k] t1)"
    by (rule node_loop(1)[OF ti]) (use B(2) same_shapeD[OF sh] in simp)
  finally show ?thesis by (simp add: segment_step_def t1_def)
qed

lemma segment_step_facts:
  assumes "tour_input t order" "same_shape t s" "k < n_parents t"
  shows "set_raw_tour_segment order k s = Some (segment_step order k s)"
    and "same_shape t (segment_step order k s)"
    and "parent_nodes (segment_step order k s) = (parent_nodes s)(k := written_parent t order k)"
    and "nodes (segment_step order k s) =
           fold (\<lambda>i f. f(nat (order ! i) := written_node order k (seg_begin t k) i))
             [seg_begin t k ..< seg_end t k] (nodes s)"
proof -
  note S = same_shapeD[OF assms(2)]
  have ti: "tour_input s order" using assms(1) S(6) by simp
  show "set_raw_tour_segment order k s = Some (segment_step order k s)"
    by (rule set_raw_tour_segment_eq[OF ti]) (use assms(3) S in simp)
  define s1 where "s1 = s\<lparr>parent_nodes := (parent_nodes s)(k := written_parent s order k)\<rparr>"
  have sh1: "same_shape s s1" by (simp add: same_shape_def s1_def)
  have ti1: "tour_input s1 order" using ti same_shapeD(6)[OF sh1] by simp
  have le: "seg_end s k \<le> n_cities s1"
    using seg_bounds(2)[OF ti, of k] assms(3) S same_shapeD[OF sh1] by simp
  note N = node_loop[OF ti1 le, of k "seg_begin s k" "seg_begin s k"]
  have step: "segment_step order k s =
      fold (node_step order k (seg_begin s k)) [seg_begin s k ..< seg_end s k] s1"
    by (simp add: segment_step_def s1_def)
  show "same_shape t (segment_step order k s)"
    using N(2) sh1 assms(2) unfolding step by (simp add: same_shape_def)
  show "parent_nodes (segment_step order k s) = (parent_nodes s)(k := written_parent t order k)"
    unfolding step N(3) by (simp add: s1_def S)
  show "nodes (segment_step order k s) =
           fold (\<lambda>i f. f(nat (order ! i) := written_node order k (seg_begin t k) i))
             [seg_begin t k ..< seg_end t k] (nodes s)"
    unfolding step N(4) by (simp add: s1_def S)
qed

lemma segment_loop:
  assumes "tour_input t order" "same_shape t s" "\<forall>k\<in>set ks. k < n_parents t"
  shows "fold_opt (set_raw_tour_segment order) ks s = Some (fold (segment_step order) ks s)"
    and "same_shape t (fold (segment_step order) ks s)"
    and "parent_nodes (fold (segment_step order) ks s) =
           fold (\<lambda>k ps. ps(k := written_parent t order k)) ks (parent_nodes s)"
    and "nodes (fold (segment_step order) ks s) =
           fold (\<lambda>k. fold (\<lambda>i f. f(nat (order ! i) := written_node order k (seg_begin t k) i))
                  [seg_begin t k ..< seg_end t k]) ks (nodes s)"
  using assms(2,3)
proof (induction ks arbitrary: s)
  case Nil
  { case 1 show ?case by simp
  next case 2 then show ?case by simp
  next case 3 show ?case by simp
  next case 4 show ?case by simp }
next
  case (Cons k ks)
  { case 1
    note F = segment_step_facts[OF assms(1) 1(1), of k]
    have k: "k < n_parents t" using 1(2) by simp
    have r: "\<forall>k\<in>set ks. k < n_parents t" using 1(2) by simp
    show ?case using Cons.IH(1)[OF F(2)[OF k] r] F(1)[OF k] by simp
  next
    case 2
    note F = segment_step_facts[OF assms(1) 2(1), of k]
    have k: "k < n_parents t" using 2(2) by simp
    have r: "\<forall>k\<in>set ks. k < n_parents t" using 2(2) by simp
    show ?case using Cons.IH(2)[OF F(2)[OF k] r] by simp
  next
    case 3
    note F = segment_step_facts[OF assms(1) 3(1), of k]
    have k: "k < n_parents t" using 3(2) by simp
    have r: "\<forall>k\<in>set ks. k < n_parents t" using 3(2) by simp
    show ?case by (simp only: fold_simps comp_apply Cons.IH(3)[OF F(2)[OF k] r] F(3)[OF k])
  next
    case 4
    note F = segment_step_facts[OF assms(1) 4(1), of k]
    have k: "k < n_parents t" using 4(2) by simp
    have r: "\<forall>k\<in>set ks. k < n_parents t" using 4(2) by simp
    show ?case by (simp only: fold_simps comp_apply Cons.IH(4)[OF F(2)[OF k] r] F(4)[OF k])
  }
qed

lemma fold_concat_eq: "fold f (concat xss) = fold (fold f) xss"
  by (induction xss) simp_all

lemma pieces:
  assumes "tour_input t order" "length xs = n_cities t"
  shows "concat (map (\<lambda>k. take (seg_end t k - seg_begin t k) (drop (seg_begin t k) xs))
           [0..<n_parents t]) = xs"
proof -
  define b where "b k = (if k < n_parents t then seg_begin t k else n_cities t)" for k
  have P: "0 < n_parents t" using assms(1) by (simp add: tour_input_def)
  have e: "seg_end t k = b (Suc k)" "seg_begin t k = b k" if "k < n_parents t" for k
    using seg_bounds(3,4)[OF assms(1) that] that by (auto simp: b_def)
  have "concat (map (\<lambda>k. take (seg_end t k - seg_begin t k) (drop (seg_begin t k) xs))
           [0..<n_parents t]) =
        concat (map (\<lambda>k. take (b (Suc k) - b k) (drop (b k) xs)) [0..<n_parents t])"
    by (rule arg_cong[where f = concat], rule map_cong) (simp_all add: e)
  also have "\<dots> = take (b (n_parents t)) xs"
  proof (rule concat_pieces)
    show "b 0 = 0" using P by (simp add: b_def seg_begin_def)
    fix k assume "k < n_parents t"
    then show "b k \<le> b (Suc k)"
      using seg_bounds(1)[OF assms(1), of k] e[of k] by simp
  qed
  also have "\<dots> = xs" using assms(2) by (simp add: b_def)
  finally show ?thesis .
qed

lemma pieces_upt:
  assumes "tour_input t order"
  shows "concat (map (\<lambda>k. [seg_begin t k ..< seg_end t k]) [0..<n_parents t]) = [0..<n_cities t]"
proof -
  have "concat (map (\<lambda>k. [seg_begin t k ..< seg_end t k]) [0..<n_parents t]) =
        concat (map (\<lambda>k. take (seg_end t k - seg_begin t k) (drop (seg_begin t k) [0..<n_cities t]))
           [0..<n_parents t])"
  proof (rule arg_cong[where f = concat], rule map_cong[OF refl])
    fix k assume "k \<in> set [0..<n_parents t]"
    then have "seg_end t k \<le> n_cities t" "seg_begin t k < seg_end t k"
      using seg_bounds(1,2)[OF assms, of k] by simp_all
    then show "[seg_begin t k ..< seg_end t k] =
        take (seg_end t k - seg_begin t k) (drop (seg_begin t k) [0..<n_cities t])"
      by (simp add: drop_upt take_upt)
  qed
  also have "\<dots> = [0..<n_cities t]" by (rule pieces[OF assms]) simp
  finally show ?thesis .
qed

lemma tour_of_initial_segs:
  assumes "tour_input t order"
  shows "tour_of (initial_segs t order) = map nat order"
proof -
  have "tour_of (initial_segs t order) =
        map nat (concat (map (\<lambda>k. take (seg_end t k - seg_begin t k) (drop (seg_begin t k) order))
           [0..<n_parents t]))"
    by (simp add: tour_of_def initial_segs_def map_concat comp_def)
  also have "\<dots> = map nat order"
    using pieces[OF assms, of order] assms by (simp add: tour_input_def)
  finally show ?thesis .
qed

lemma tour_input_keys:
  assumes "tour_input t order"
  shows "distinct (map nat order)" "set (map nat order) = {origin_city t ..< origin_city t + n_cities t}"
proof -
  have nn: "\<forall>c\<in>set order. 0 \<le> c" using assms by (auto simp: tour_input_def)
  then have "inj_on nat (set order)" by (intro inj_onI) (simp add: eq_nat_nat_iff)
  then show "distinct (map nat order)" using assms by (simp add: distinct_map tour_input_def)
  have "set (map nat order) = nat ` int ` {origin_city t ..< origin_city t + n_cities t}"
    using assms by (simp add: tour_input_def)
  also have "\<dots> = {origin_city t ..< origin_city t + n_cities t}"
    by (simp add: image_image)
  finally show "set (map nat order) = {origin_city t ..< origin_city t + n_cities t}" .
qed

lemma set_raw_tour_result:
  assumes "tour_input t order"
  obtains t' where "set_raw_tour t order = Some t'" "same_shape t t'"
    "\<And>k. k < n_parents t \<Longrightarrow> parent_nodes t' k = written_parent t order k"
    "\<And>k i. k < n_parents t \<Longrightarrow> seg_begin t k \<le> i \<Longrightarrow> i < seg_end t k \<Longrightarrow>
        nodes t' (nat (order ! i)) = written_node order k (seg_begin t k) i"
proof -
  let ?P = "n_parents t"
  define t' where "t' = fold (segment_step order) [0..<?P] t"
  have sh: "same_shape t t" by (simp add: same_shape_def)
  have ks: "\<forall>k\<in>set [0..<?P]. k < ?P" by simp
  note L = segment_loop[OF assms sh ks, folded t'_def]
  have ne: "length order = n_cities t" "order \<noteq> []"
    using assms by (auto simp: tour_input_def)
  have 1: "set_raw_tour t order = Some t'"
    using L(1) ne by (simp add: set_raw_tour_def cassert_def n_segments_def)
  have 3: "parent_nodes t' k = written_parent t order k" if "k < ?P" for k
  proof -
    have "fold (\<lambda>k ps. ps(k := written_parent t order k)) [0..<?P] (parent_nodes t) k
            = written_parent t order k"
      using fold_point_updates(1)[where key = "\<lambda>k. k" and val = "written_parent t order"
          and xs = "[0..<?P]" and x = k] that by simp
    then show ?thesis by (simp add: L(3))
  qed
  define pairs where "pairs = concat (map (\<lambda>k. map (Pair k) [seg_begin t k ..< seg_end t k]) [0..<?P])"
  define key :: "nat \<times> nat \<Rightarrow> nat" where "key x = nat (order ! snd x)" for x
  define val where "val x = written_node order (fst x) (seg_begin t (fst x)) (snd x)" for x
  have "map snd pairs = concat (map (\<lambda>k. [seg_begin t k ..< seg_end t k]) [0..<?P])"
    by (simp add: pairs_def map_concat comp_def)
  then have sp: "map snd pairs = [0..<n_cities t]" by (simp add: pieces_upt[OF assms])
  have "map key pairs = map (\<lambda>i. nat (order ! i)) (map snd pairs)"
    by (simp add: key_def comp_def)
  also have "\<dots> = map nat order"
    unfolding sp using ne(1) by (intro nth_equalityI) simp_all
  finally have dk: "distinct (map key pairs)" using tour_input_keys(1)[OF assms] by simp
  have nodes: "nodes t' = fold (\<lambda>x f. f(key x := val x)) pairs (nodes t)"
    unfolding L(4) pairs_def
    by (simp add: fold_concat_eq fold_map comp_def key_def val_def del: fun_upd_apply)
  have 4: "nodes t' (nat (order ! i)) = written_node order k (seg_begin t k) i"
    if "k < ?P" "seg_begin t k \<le> i" "i < seg_end t k" for k i
  proof -
    have "(k, i) \<in> set pairs" using that by (auto simp: pairs_def intro!: bexI[of _ k])
    from fold_point_updates(1)[OF dk this, of val "nodes t"] show ?thesis
      by (simp add: nodes key_def val_def)
  qed
  show thesis by (rule that[OF 1 L(2) 3 4])
qed

lemma cyclic_nthI:
  assumes "\<And>i. i < length xs \<Longrightarrow> R (xs ! i) (xs ! (Suc i mod length xs))"
  shows "cyclic R xs"
proof (cases "xs = []")
  case True
  then show ?thesis by (simp add: cyclic_def)
next
  case False
  have "R ((xs @ [hd xs]) ! i) ((xs @ [hd xs]) ! Suc i)" if "Suc i < length (xs @ [hd xs])" for i
  proof (cases "Suc i < length xs")
    case True
    then show ?thesis using assms[of i] by (simp add: nth_append)
  next
    case F: False
    with that have "Suc i = length xs" by simp
    then show ?thesis using assms[of i] False by (simp add: nth_append hd_conv_nth)
  qed
  then show ?thesis by (simp add: cyclic_def successively_conv_nth)
qed

lemma mod_Suc_pred: "i < n \<Longrightarrow> (Suc i mod n + (n - 1)) mod n = (i::nat)"
proof (cases "Suc i = n")
  case True
  assume "i < n"
  with True show ?thesis by simp
next
  case False
  assume "i < n"
  with False have "Suc i mod n = Suc i" by simp
  moreover have "Suc i + (n - 1) = i + n" using \<open>i < n\<close> by simp
  ultimately show ?thesis using \<open>i < n\<close> by simp
qed

lemma set_raw_tour_tree_inv:
  assumes ti: "tour_input t order"
  shows "\<exists>t'. set_raw_tour t order = Some t' \<and> tree_inv t' (initial_segs t order) \<and>
              same_shape t t' \<and> (\<forall>p < n_parents t. \<not> rev_of t' p \<and> pid_of t' p = int p)"
proof -
  obtain t' where t': "set_raw_tour t order = Some t'" "same_shape t t'"
    and PN0: "\<forall>k. k < n_parents t \<longrightarrow> parent_nodes t' k = written_parent t order k"
    and NN0: "\<forall>k i. k < n_parents t \<longrightarrow> seg_begin t k \<le> i \<longrightarrow> i < seg_end t k \<longrightarrow>
        nodes t' (nat (order ! i)) = written_node order k (seg_begin t k) i"
  proof (rule set_raw_tour_result[OF ti], goal_cases)
    case (1 t')
    show ?case by (rule that[of t']) (use 1 in simp_all)
  qed
  have PN: "\<And>k. k < n_parents t \<Longrightarrow> parent_nodes t' k = written_parent t order k"
    and NN: "\<And>k i. k < n_parents t \<Longrightarrow> seg_begin t k \<le> i \<Longrightarrow> i < seg_end t k \<Longrightarrow>
        nodes t' (nat (order ! i)) = written_node order k (seg_begin t k) i"
    using PN0 NN0 by simp_all
  let ?P = "n_parents t" and ?n = "n_cities t"
  note S = same_shapeD[OF t'(2)]
  have I: "2 \<le> ?P" "?P \<le> ?n" "n_nodes t = ?n + origin_city t" "length order = ?n"
    using ti by (simp_all add: tour_input_def)
  have nn: "0 \<le> order ! i" if "i < ?n" for i
  proof -
    have "order ! i \<in> set order" using that I(4) by simp
    then show ?thesis using ti by (auto simp: tour_input_def)
  qed
  \<comment> \<open>the fields of the parents\<close>
  have PF: "rev_of t' k = False" "size_of t' k = int (seg_end t k) - int (seg_begin t k)"
    "pid_of t' k = int k" "pprev_of t' k = (k + (?P - 1)) mod ?P" "pnext_of t' k = Suc k mod ?P"
    "begin_of t' k = nat (order ! seg_begin t k)" "end_of t' k = nat (order ! (seg_end t k - 1))"
    if "k < ?P" for k
    using PN[OF that]
    by (simp_all add: rev_of_def size_of_def pid_of_def pprev_of_def pnext_of_def begin_of_def
        end_of_def written_parent_def)
  \<comment> \<open>every position lies in a segment\<close>
  have seg: "\<exists>k<?P. seg_begin t k \<le> i \<and> i < seg_end t k" if "i < ?n" for i
  proof -
    have "i \<in> set (concat (map (\<lambda>k. [seg_begin t k ..< seg_end t k]) [0..<?P]))"
      using that by (simp add: pieces_upt[OF ti])
    then show ?thesis by auto
  qed
  \<comment> \<open>the fields of the nodes\<close>
  have NF: "id_of t' (nat (order ! i)) = int i - int (seg_begin t k)"
    "city_of t' (nat (order ! i)) = order ! i"
    "prev_of t' (nat (order ! i)) = nat (order ! ((i + (?n - 1)) mod ?n))"
    "next_of t' (nat (order ! i)) = nat (order ! (Suc i mod ?n))"
    "parent_of t' (nat (order ! i)) = k"
    if "k < ?P" "seg_begin t k \<le> i" "i < seg_end t k" for k i
    using NN[OF that] I(4)
    by (simp_all add: id_of_def city_of_def prev_of_def next_of_def parent_of_def written_node_def)
  have NX: "get_next t' (nat (order ! i)) = nat (order ! (Suc i mod ?n))"
    "get_prev t' (nat (order ! i)) = nat (order ! ((i + (?n - 1)) mod ?n))"
    "city_of t' (nat (order ! i)) = int (nat (order ! i))" if "i < ?n" for i
  proof -
    from seg[OF that] obtain k where k: "k < ?P" "seg_begin t k \<le> i" "i < seg_end t k" by blast
    show "get_next t' (nat (order ! i)) = nat (order ! (Suc i mod ?n))"
      "get_prev t' (nat (order ! i)) = nat (order ! ((i + (?n - 1)) mod ?n))"
      "city_of t' (nat (order ! i)) = int (nat (order ! i))"
      using NF[OF k] PF(1)[OF k(1)] nn[OF that] by (simp_all add: get_next_def get_prev_def)
  qed
  let ?T = "map nat order"
  have tour: "tour_of (initial_segs t order) = ?T" by (rule tour_of_initial_segs[OF ti])
  let ?S = "initial_segs t order"
  \<comment> \<open>the links\<close>
  have "cyclic (linked t') ?T"
  proof (rule cyclic_nthI)
    fix i assume "i < length ?T"
    then have i: "i < ?n" using I(4) by simp
    then have j: "Suc i mod ?n < ?n" by (rule Suc_mod_less)
    show "linked t' (?T ! i) (?T ! (Suc i mod length ?T))"
      using NX(1)[OF i] NX(2)[OF j] mod_Suc_pred[OF i] i j I(4) by (simp add: linked_def)
  qed
  then have c10: "cyclic (linked t') (tour_of ?S)" by (simp only: tour)
  have c11: "cyclic (plinked t') (map fst ?S)"
  proof -
    have m: "map fst ?S = [0..<?P]"
      by (simp add: initial_segs_def comp_def)
    have "cyclic (plinked t') [0..<?P]"
    proof (rule cyclic_nthI)
      fix k assume "k < length [0..<?P]"
      then have k: "k < ?P" by simp
      then have j: "Suc k mod ?P < ?P" by (rule Suc_mod_less)
      have "int (Suc k mod ?P) = (int k + 1) mod int ?P" by (simp add: zmod_int add.commute)
      then show "plinked t' ([0..<?P] ! k) ([0..<?P] ! (Suc k mod length [0..<?P]))"
        using PF(3,5)[OF k] PF(3,4)[OF j] mod_Suc_pred[OF k] k j S(1)
        by (simp add: plinked_def)
    qed
    with m show ?thesis by simp
  qed
  have c9: "\<forall>s\<in>set ?S. seg_ok t' (fst s) (snd s)"
  proof
    fix s assume "s \<in> set ?S"
    then obtain k where k: "k < ?P"
      and s: "s = (k, map nat (take (seg_end t k - seg_begin t k) (drop (seg_begin t k) order)))"
      by (auto simp: initial_segs_def)
    note B = seg_bounds[OF ti k]
    let ?b = "seg_begin t k" and ?e = "seg_end t k"
    define ns where "ns = map nat (take (?e - ?b) (drop ?b order))"
    have len: "length ns = ?e - ?b" using B I(4) by (simp add: ns_def)
    have nth: "ns ! j = nat (order ! (?b + j))" if "j < ?e - ?b" for j
      using that B I(4) by (simp add: ns_def)
    have ne: "ns \<noteq> []" using len B(1) by auto
    have "hd ns = nat (order ! ?b)" using nth[of 0] ne B(1) by (simp add: hd_conv_nth)
    moreover have "last ns = nat (order ! (?e - 1))"
      using nth[of "?e - ?b - 1"] ne B(1) len by (simp add: last_conv_nth)
    moreover have "parent_of t' v = k" if "v \<in> set ns" for v
    proof -
      from that obtain j where "j < ?e - ?b" "v = ns ! j" by (auto simp: in_set_conv_nth len)
      then show ?thesis using NF(5)[OF k, of "?b + j"] nth[of j] by simp
    qed
    moreover have "successively (\<lambda>u v. id_of t' v = id_of t' u + dir_of t' k) ns"
      unfolding successively_conv_nth
    proof (intro allI impI)
      fix j assume "Suc j < length ns"
      then have j: "j < ?e - ?b" "Suc j < ?e - ?b" using len by simp_all
      show "id_of t' (ns ! Suc j) = id_of t' (ns ! j) + dir_of t' k"
        using NF(1)[OF k, of "?b + j"] NF(1)[OF k, of "?b + Suc j"] nth[OF j(1)] nth[OF j(2)] j
          PF(1)[OF k]
        by (simp add: dir_of_def)
    qed
    ultimately have "seg_ok t' k ns"
      using ne len PF(1,2,6,7)[OF k] B(1)
      by (simp add: seg_ok_def forward_begin_node_def forward_end_node_def)
    then show "seg_ok t' (fst s) (snd s)" by (simp add: s ns_def)
  qed
  have "\<forall>v\<in>set ?T. city_of t' v = int v"
  proof
    fix v assume "v \<in> set ?T"
    then obtain i where "i < ?n" "v = nat (order ! i)"
      using I(4) by (auto simp: in_set_conv_nth)
    then show "city_of t' v = int v" using NX(3) by simp
  qed
  then have c8: "\<forall>v\<in>set (tour_of ?S). city_of t' v = int v" by (simp only: tour)
  have c2: "length ?S = n_parents t'" and c3: "distinct (map fst ?S)"
    and c4: "\<forall>p\<in>set (map fst ?S). p < n_parents t'"
    by (simp_all add: initial_segs_def comp_def S)
  have c1: "2 \<le> n_parents t'" and c5: "n_nodes t' = n_cities t' + origin_city t'"
    using I S by simp_all
  have c6: "distinct (tour_of ?S)"
    and c7: "set (tour_of ?S) = {origin_city t' ..< origin_city t' + n_cities t'}"
    using tour_input_keys[OF ti] by (simp_all only: tour S)
  have "tree_inv t' ?S"
    unfolding tree_inv_def by (intro conjI c1 c2 c3 c4 c5 c6 c7 c8 c9 c10 c11)
  moreover have "\<forall>p < ?P. \<not> rev_of t' p \<and> pid_of t' p = int p" using PF(1,3) by simp
  ultimately show ?thesis using t' by blast
qed


subsection \<open>The constructor\<close>

lemma sqrt_down_bounds:
  "sqrt_down n k * sqrt_down n k \<le> n" "sqrt_down n k \<le> k"
  "0 < n \<Longrightarrow> 0 < k \<Longrightarrow> 0 < sqrt_down n k"
proof -
  show "sqrt_down n k * sqrt_down n k \<le> n" by (induction k) simp_all
  show "sqrt_down n k \<le> k" by (induction k) (simp_all add: le_SucI)
  show "0 < n \<Longrightarrow> 0 < k \<Longrightarrow> 0 < sqrt_down n k"
  proof (induction k)
    case 0
    then show ?case by simp
  next
    case (Suc k)
    then show ?case by (cases k) auto
  qed
qed

lemma isqrt_bounds:
  assumes "2 \<le> n"
  shows "1 \<le> isqrt n" "isqrt n + 1 \<le> n"
proof -
  show "1 \<le> isqrt n" using sqrt_down_bounds(3)[of n n] assms by (simp add: isqrt_def)
  have a: "isqrt n * isqrt n \<le> n" "isqrt n \<le> n"
    using sqrt_down_bounds(1,2)[of n n] by (simp_all add: isqrt_def)
  have "isqrt n \<noteq> n"
  proof
    assume "isqrt n = n"
    with a(1) have "n * n \<le> n" by simp
    with assms show False by simp
  qed
  with a(2) show "isqrt n + 1 \<le> n" by simp
qed

lemma TwoLevelTree_fields:
  assumes "TwoLevelTree n origin = Some t"
  shows "n_parents t = isqrt n + 1" "n_cities t = n" "origin_city t = origin"
    "n_nodes t = n + origin" "nominal_segment_length t = n div (isqrt n + 1)"
  using assms by (auto simp: TwoLevelTree_def cassert_def split: if_splits bind_splits)

lemma TwoLevelTree_total: "0 < n \<Longrightarrow> 0 < isqrt n \<Longrightarrow> \<exists>t. TwoLevelTree n origin = Some t"
  by (simp add: TwoLevelTree_def cassert_def)

text \<open>A tree built for \<open>n \<ge> 2\<close> cities and given a permutation of its cities is valid.\<close>

lemma set_raw_tour_valid:
  assumes "TwoLevelTree n origin = Some t0" "2 \<le> n" "length order = n" "distinct order"
    "set order = int ` {origin ..< origin + n}"
  shows "\<exists>t. set_raw_tour t0 order = Some t \<and> tree_inv t (initial_segs t0 order) \<and>
             same_shape t0 t \<and> (\<forall>p < n_parents t0. \<not> rev_of t p \<and> pid_of t p = int p)"
proof -
  note F = TwoLevelTree_fields[OF assms(1)]
  have "tour_input t0 order"
    using assms(2-) isqrt_bounds[OF assms(2)] by (simp add: tour_input_def F)
  then show ?thesis by (rule set_raw_tour_tree_inv)
qed


section \<open>Building a tree, as the tests do\<close>

definition make_tree :: "nat \<Rightarrow> nat \<Rightarrow> int list \<Rightarrow> two_level_tree option" where
  "make_tree n origin order = do { t \<leftarrow> TwoLevelTree n origin; set_raw_tour t order }"

lemma make_tree_valid:
  assumes "2 \<le> n" "length order = n" "distinct order" "set order = int ` {origin ..< origin + n}"
  shows "\<exists>t segs. make_tree n origin order = Some t \<and> tree_inv t segs \<and>
           tour_of segs = map nat order \<and> n_cities t = n \<and> origin_city t = origin \<and>
           n_parents t = isqrt n + 1 \<and> nominal_segment_length t = n div (isqrt n + 1) \<and>
           (\<forall>p < isqrt n + 1. \<not> rev_of t p \<and> pid_of t p = int p)"
proof -
  have "0 < n" "0 < isqrt n" using assms(1) isqrt_bounds(1)[OF assms(1)] by simp_all
  then obtain t0 where t0: "TwoLevelTree n origin = Some t0"
    using TwoLevelTree_total by blast
  note F = TwoLevelTree_fields[OF t0]
  from set_raw_tour_valid[OF t0 assms] obtain t where t: "set_raw_tour t0 order = Some t"
    "tree_inv t (initial_segs t0 order)" "same_shape t0 t"
    "\<forall>p < n_parents t0. \<not> rev_of t p \<and> pid_of t p = int p" by blast
  have ti: "tour_input t0 order"
    using assms isqrt_bounds[OF assms(1)] by (simp add: tour_input_def F)
  have "make_tree n origin order = Some t" using t0 t(1) by (simp add: make_tree_def)
  moreover have "tour_of (initial_segs t0 order) = map nat order"
    by (rule tour_of_initial_segs[OF ti])
  ultimately show ?thesis
    using t(2,4) same_shapeD[OF t(3)] F by auto
qed

text \<open>The 12-city tour of the tests.\<close>

definition tree12 :: two_level_tree where
  "tree12 = the (make_tree 12 1 [3, 6, 8, 4, 1, 12, 2, 5, 9, 10, 7, 11])"

lemma tree12_facts:
  "\<exists>segs. make_tree 12 1 [3, 6, 8, 4, 1, 12, 2, 5, 9, 10, 7, 11] = Some tree12 \<and>
     tree_inv tree12 segs \<and> tour_of segs = [3, 6, 8, 4, 1, 12, 2, 5, 9, 10, 7, 11] \<and>
     n_cities tree12 = 12 \<and> origin_city tree12 = 1 \<and> n_parents tree12 = 4"
proof -
  have s: "set [3, 6, 8, 4, 1, 12, 2, 5, 9, 10, 7, 11 :: int] = int ` {1 ..< 1 + 12}"
    by code_simp
  have r: "isqrt 12 = 3" by code_simp
  from make_tree_valid[of 12 "[3, 6, 8, 4, 1, 12, 2, 5, 9, 10, 7, 11]" 1, OF _ _ _ s]
  show ?thesis by (auto simp: tree12_def r)
qed

lemma tree12_valid: "valid tree12" "n_cities tree12 = 12" "origin_city tree12 = 1"
  using tree12_facts by (auto simp: valid_def)


section \<open>The claims\<close>

text \<open>
  Claim C5.  On a valid tree, for a node \<open>s\<close> of the tree, any \<open>include_self\<close> flag and
  any direction such that the move does not take every node of the segment of \<open>s\<close> (with
  \<open>include_self\<close>, \<open>s\<close> is not the last node the walk would reach: the logical first node
  of its segment when moving forward, the logical last one when moving backward),
  \<^verbatim>\<open>split_and_merge\<close> returns, the tree it leaves is valid, and
  \<^verbatim>\<open>get_raw_tour\<close> gives the same sequence before and after the call, from every
  start city and in both directions.
\<close>

theorem split_and_merge_keeps_tour:
  assumes "valid t" "origin_city t \<le> s" "s < origin_city t + n_cities t"
    and "\<not> (include_self \<and> s = (if direction = forward
               then forward_begin_node t (parent_of t s)
               else forward_end_node t (parent_of t s)))"
  shows "\<exists>t'. split_and_merge t s include_self direction = Some t' \<and> valid t' \<and>
              (\<forall>c d. get_raw_tour t' c d = get_raw_tour t c d)"
proof -
  from assms(1) obtain segs where inv: "tree_inv t segs" by (auto simp: valid_def)
  have s: "s \<in> set (tour_of segs)"
    using assms(2,3) tree_inv_fields(4)[OF inv] by simp
  from split_and_merge_valid[OF inv s assms(4)]
  obtain t' segs' where t': "split_and_merge t s include_self direction = Some t'"
    "tree_inv t' segs'" "pframe_links t t'"
    "\<forall>u\<in>set (tour_of segs). get_next t' u = get_next t u \<and> get_prev t' u = get_prev t u"
    by blast
  have "get_raw_tour t' c d = get_raw_tour t c d" for c d
    by (rule get_raw_tour_cong[OF inv t'(3)]) (use t'(4) in simp)
  with t'(1,2) show ?thesis by (auto simp: valid_def)
qed

theorem split_and_merge_keeps_tour_witness:
  "valid tree12 \<and> origin_city tree12 \<le> 2 \<and> 2 < origin_city tree12 + n_cities tree12 \<and>
   (\<exists>t'. split_and_merge tree12 2 False forward = Some t' \<and> valid t' \<and>
         (\<forall>c d. get_raw_tour t' c d = get_raw_tour tree12 c d))"
  using split_and_merge_keeps_tour[of tree12 2 False forward] tree12_valid by simp


end
